theory Spec2Isabelle
  imports Complex_Main "HOL-Library.Word" "HOL-Library.Signed_Division"
begin

section \<open>Data model\<close>

text \<open>
  The four configuration globals \<^verbatim>\<open>KERNEL_SPACE_SIZE\<close>, \<^verbatim>\<open>VIRTUAL_SPACE_SIZE\<close>,
  \<^verbatim>\<open>PAGE_SIZE\<close> and \<^verbatim>\<open>MAX_PROCESS_NUM\<close> are declared in \<^verbatim>\<open>kernel.h\<close> and assigned
  once at the start of \<^verbatim>\<open>main\<close>. Every operation takes them as a parameter.
\<close>

record Config =
  KERNEL_SPACE_SIZE :: int
  VIRTUAL_SPACE_SIZE :: int
  PAGE_SIZE :: int
  MAX_PROCESS_NUM :: int

text \<open>
  Modelled from the spec: the struct declarations of \<^verbatim>\<open>kernel.h\<close> (\<^verbatim>\<open>struct PTE\<close>,
  \<^verbatim>\<open>struct PageTable\<close>, \<^verbatim>\<open>struct MMStruct\<close>, \<^verbatim>\<open>struct Kernel\<close>). The field names
  are the ones the code uses; the flags \<^verbatim>\<open>present\<close>, \<^verbatim>\<open>occupied_pages[j]\<close> and
  \<^verbatim>\<open>running[i]\<close>, which the code only ever sets to 0 or 1 and tests with \<^verbatim>\<open>!\<close>, are
  booleans. A pointer to a heap array is the list of its cells; the \<^verbatim>\<open>page_table\<close>
  pointer is \<open>None\<close> when it is \<^verbatim>\<open>NULL\<close>. C \<^verbatim>\<open>int\<close> values are HOL integers.
\<close>

type_synonym byte = "8 word"

record PTE =
  PFN :: int
  present :: bool

record PageTable =
  ptes :: "PTE list"

record MMStruct =
  size_mm :: int
  page_table :: "PageTable option"

record Kernel =
  space :: "byte list"
  occupied_pages :: "bool list"
  running :: "bool list"
  mm :: "MMStruct list"
  allocated_pages :: int

text \<open>
  Every operation returns an \<open>option\<close>: \<open>None\<close> stands for undefined behaviour of
  the C program (an array access out of range, a dereference of \<^verbatim>\<open>NULL\<close>, a division
  by zero, a signed overflow of the admission sum). \<open>Some (r, k')\<close> is a return
  with value \<open>r\<close> in the updated kernel state.
\<close>

definition INT_MAX :: int where
  "INT_MAX = 2147483647"

definition INT_MIN :: int where
  "INT_MIN = - 2147483648"

definition int_range :: "int \<Rightarrow> bool" where
  "int_range x \<longleftrightarrow> INT_MIN \<le> x \<and> x \<le> INT_MAX"

text \<open>
  \<^verbatim>\<open>memcpy(dst + d, src + s, n)\<close> on byte arrays: the \<open>n\<close> bytes of \<open>src\<close> from
  offset \<open>s\<close> replace the \<open>n\<close> bytes of \<open>dst\<close> from offset \<open>d\<close>. Copying outside
  either array is undefined.
\<close>

definition memcpy :: "byte list \<Rightarrow> int \<Rightarrow> byte list \<Rightarrow> int \<Rightarrow> int \<Rightarrow> byte list option" where
  "memcpy dst d src s n =
     (if n < 0 \<or> d < 0 \<or> s < 0 \<or> int (length dst) < d + n \<or> int (length src) < s + n
      then None
      else Some (take (nat d) dst @ take (nat n) (drop (nat s) src) @ drop (nat (d + n)) dst))"

section \<open>Process creation\<close>

text \<open>The slot search of \<^verbatim>\<open>proc_create_vm\<close> (lines 122-127): the first \<open>i\<close> from the
  given one with \<^verbatim>\<open>running[i]\<close> clear, or \<open>-1\<close>.\<close>

function find_free_slot :: "Config \<Rightarrow> bool list \<Rightarrow> int \<Rightarrow> int option" where
  "find_free_slot c rs i =
     (if i < MAX_PROCESS_NUM c then
        (if i < 0 \<or> int (length rs) \<le> i then None
         else if \<not> rs ! nat i then Some i
         else find_free_slot c rs (i + 1))
      else Some (- 1))"
  by pat_completeness auto
termination
  by (relation "measure (\<lambda>(c, rs, i). nat (MAX_PROCESS_NUM c - i))") auto

declare find_free_slot.simps [simp del]

text \<open>
  \<^verbatim>\<open>proc_create_vm\<close> (lines 115-145). The freshly allocated table of
  \<^verbatim>\<open>no_of_pages_needed\<close> entries, each set to \<^verbatim>\<open>PFN = -1, present = 0\<close> by the loop of
  lines 139-142, is the list \<open>replicate\<close> builds; \<^verbatim>\<open>malloc\<close> is taken to succeed.
\<close>

definition proc_create_vm :: "Config \<Rightarrow> Kernel \<Rightarrow> int \<Rightarrow> (int \<times> Kernel) option" where
  "proc_create_vm c k sz =
     (if 0 \<ge> sz \<or> sz > VIRTUAL_SPACE_SIZE c then Some (- 1, k)
      else if PAGE_SIZE c = 0 then None
      else
        let no_of_pages_needed = (sz - 1) sdiv PAGE_SIZE c + 1 in
        if \<not> int_range (allocated_pages k + no_of_pages_needed) then None
        else if allocated_pages k + no_of_pages_needed
                  > KERNEL_SPACE_SIZE c sdiv PAGE_SIZE c then Some (- 1, k)
        else
          (case find_free_slot c (running k) 0 of
             None \<Rightarrow> None
           | Some pid \<Rightarrow>
               if pid = - 1 then Some (- 1, k)
               else if int (length (mm k)) \<le> pid then None
               else Some (pid,
                 k\<lparr>allocated_pages := allocated_pages k + no_of_pages_needed,
                        running := (running k)[nat pid := True],
                        mm := (mm k)[nat pid :=
                          \<lparr>size_mm = sz,
                           page_table = Some \<lparr>ptes =
                             replicate (nat no_of_pages_needed)
                               \<lparr>PFN = - 1, present = False\<rparr>\<rparr>\<rparr>]\<rparr>)))"

section \<open>Lazy mapping\<close>

text \<open>\<^verbatim>\<open>kernel->mm[pid].page_table->ptes[i]\<close>, read and written.\<close>

definition get_pte :: "Kernel \<Rightarrow> int \<Rightarrow> int \<Rightarrow> PTE option" where
  "get_pte k pid i =
     (if pid < 0 \<or> int (length (mm k)) \<le> pid then None
      else
        (case page_table (mm k ! nat pid) of
           None \<Rightarrow> None
         | Some pt \<Rightarrow>
             if i < 0 \<or> int (length (ptes pt)) \<le> i then None
             else Some (ptes pt ! nat i)))"

definition set_pte :: "Kernel \<Rightarrow> int \<Rightarrow> int \<Rightarrow> PTE \<Rightarrow> Kernel" where
  "set_pte k pid i e =
     k\<lparr>mm := (mm k)[nat pid :=
       (mm k ! nat pid)\<lparr>page_table :=
          map_option (\<lambda>pt. pt\<lparr>ptes := (ptes pt)[nat i := e]\<rparr>)
            (page_table (mm k ! nat pid))\<rparr>]\<rparr>"

text \<open>The first-fit scan (lines 161-167 and 205-211): the lowest \<open>j\<close> from the given
  one with \<^verbatim>\<open>occupied_pages[j]\<close> clear is marked and returned, or \<open>-1\<close>.\<close>

function first_fit :: "Config \<Rightarrow> bool list \<Rightarrow> int \<Rightarrow> (int \<times> bool list) option" where
  "first_fit c occ j =
     (if j < KERNEL_SPACE_SIZE c sdiv PAGE_SIZE c then
        (if j < 0 \<or> int (length occ) \<le> j then None
         else if \<not> occ ! nat j then Some (j, occ[nat j := True])
         else first_fit c occ (j + 1))
      else Some (- 1, occ))"
  by pat_completeness auto
termination
  by (relation "measure (\<lambda>(c, occ, j). nat (KERNEL_SPACE_SIZE c sdiv PAGE_SIZE c - j))") auto

declare first_fit.simps [simp del]

text \<open>
  The mapping block that opens each iteration of the page loop, the same text in
  \<^verbatim>\<open>vm_read\<close> (lines 160-172) and \<^verbatim>\<open>vm_write\<close> (lines 204-216). The flag returned is
  \<open>False\<close> when the block executes \<^verbatim>\<open>return -1\<close> and \<open>True\<close> when control falls
  through to the copy.
\<close>

definition map_page :: "Config \<Rightarrow> Kernel \<Rightarrow> int \<Rightarrow> int \<Rightarrow> (bool \<times> Kernel) option" where
  "map_page c k pid i =
     (case get_pte k pid i of
        None \<Rightarrow> None
      | Some e \<Rightarrow>
          if \<not> present e then
            (case first_fit c (occupied_pages k) 0 of
               None \<Rightarrow> None
             | Some (pfn, occ) \<Rightarrow>
                 if pfn = - 1 then Some (False, k\<lparr>occupied_pages := occ\<rparr>)
                 else Some (True,
                   set_pte (k\<lparr>occupied_pages := occ\<rparr>) pid i
                     \<lparr>PFN = pfn, present = True\<rparr>))
          else Some (True, k))"

section \<open>Reading\<close>

text \<open>The copy of one iteration of \<^verbatim>\<open>vm_read\<close> (lines 174-186): the new caller
  buffer and the new \<^verbatim>\<open>curr\<close>.\<close>

definition read_page ::
  "Config \<Rightarrow> byte list \<Rightarrow> int \<Rightarrow> int \<Rightarrow> int \<Rightarrow> int \<Rightarrow> int \<Rightarrow> int \<Rightarrow> int \<Rightarrow> int \<Rightarrow> byte list
     \<Rightarrow> (byte list \<times> int) option" where
  "read_page c sp sz start start_offset endp end_offset i cur pfn buf =
     (if start = endp then
        map_option (\<lambda>b. (b, cur))
          (memcpy buf 0 sp (PAGE_SIZE c * pfn + start_offset) sz)
      else if i = start then
        map_option (\<lambda>b. (b, cur + (PAGE_SIZE c - start_offset)))
          (memcpy buf 0 sp (PAGE_SIZE c * pfn + start_offset) (PAGE_SIZE c - start_offset))
      else if i = endp then
        map_option (\<lambda>b. (b, cur))
          (memcpy buf cur sp (PAGE_SIZE c * pfn) end_offset)
      else
        map_option (\<lambda>b. (b, cur + PAGE_SIZE c))
          (memcpy buf cur sp (PAGE_SIZE c * pfn) (PAGE_SIZE c)))"

text \<open>The page loop of \<^verbatim>\<open>vm_read\<close> (lines 159-188), from page \<open>i\<close>.\<close>

function vm_read_loop ::
  "Config \<Rightarrow> int \<Rightarrow> int \<Rightarrow> int \<Rightarrow> int \<Rightarrow> int \<Rightarrow> int \<Rightarrow> int \<Rightarrow> int \<Rightarrow> Kernel \<Rightarrow> byte list
     \<Rightarrow> (int \<times> Kernel \<times> byte list) option" where
  "vm_read_loop c pid sz start start_offset endp end_offset i cur k buf =
     (if i \<le> endp then
        (case map_page c k pid i of
           None \<Rightarrow> None
         | Some (ok, k') \<Rightarrow>
             if \<not> ok then Some (- 1, k', buf)
             else
               (case get_pte k' pid i of
                  None \<Rightarrow> None
                | Some e \<Rightarrow>
                    (case read_page c (space k') sz start start_offset endp end_offset
                            i cur (PFN e) buf of
                       None \<Rightarrow> None
                     | Some (buf', cur') \<Rightarrow>
                         vm_read_loop c pid sz start start_offset endp end_offset
                           (i + 1) cur' k' buf')))
      else Some (0, k, buf))"
  by pat_completeness auto
termination
  by (relation "measure (\<lambda>(c, pid, sz, start, start_offset, endp, end_offset, i, cur, k, buf).
        nat (endp + 1 - i))") auto

declare vm_read_loop.simps [simp del]

text \<open>\<^verbatim>\<open>vm_read\<close> (lines 150-189). The address argument, a \<^verbatim>\<open>char *\<close> that the code
  only casts to \<^verbatim>\<open>long long\<close>, is an integer; the result carries the caller's buffer.\<close>

definition vm_read ::
  "Config \<Rightarrow> Kernel \<Rightarrow> int \<Rightarrow> int \<Rightarrow> int \<Rightarrow> byte list \<Rightarrow> (int \<times> Kernel \<times> byte list) option" where
  "vm_read c k pid addr sz buf =
     (if sz \<le> 0 then Some (- 1, k, buf)
      else if pid < 0 \<or> int (length (mm k)) \<le> pid then None
      else if 0 > addr \<or> addr \<ge> size_mm (mm k ! nat pid) then Some (- 1, k, buf)
      else if addr + sz > size_mm (mm k ! nat pid) then Some (- 1, k, buf)
      else if PAGE_SIZE c = 0 then None
      else
        let start = addr sdiv PAGE_SIZE c; start_offset = addr smod PAGE_SIZE c;
            endp = (addr + sz - 1) sdiv PAGE_SIZE c; end_offset = (addr + sz) smod PAGE_SIZE c
        in vm_read_loop c pid sz start start_offset endp end_offset start 0 k buf)"

section \<open>Writing\<close>

text \<open>The copy of one iteration of \<^verbatim>\<open>vm_write\<close> (lines 218-230): the new physical
  space and the new \<^verbatim>\<open>curr\<close>.\<close>

definition write_page ::
  "Config \<Rightarrow> byte list \<Rightarrow> int \<Rightarrow> int \<Rightarrow> int \<Rightarrow> int \<Rightarrow> int \<Rightarrow> int \<Rightarrow> int \<Rightarrow> int \<Rightarrow> byte list
     \<Rightarrow> (byte list \<times> int) option" where
  "write_page c sp sz start start_offset endp end_offset i cur pfn buf =
     (if start = endp then
        map_option (\<lambda>s. (s, cur))
          (memcpy sp (PAGE_SIZE c * pfn + start_offset) buf 0 sz)
      else if i = start then
        map_option (\<lambda>s. (s, cur + (PAGE_SIZE c - start_offset)))
          (memcpy sp (PAGE_SIZE c * pfn + start_offset) buf 0 (PAGE_SIZE c - start_offset))
      else if i = endp then
        map_option (\<lambda>s. (s, cur))
          (memcpy sp (PAGE_SIZE c * pfn) buf cur end_offset)
      else
        map_option (\<lambda>s. (s, cur + PAGE_SIZE c))
          (memcpy sp (PAGE_SIZE c * pfn) buf cur (PAGE_SIZE c)))"

text \<open>The page loop of \<^verbatim>\<open>vm_write\<close> (lines 203-232), from page \<open>i\<close>.\<close>

function vm_write_loop ::
  "Config \<Rightarrow> int \<Rightarrow> int \<Rightarrow> int \<Rightarrow> int \<Rightarrow> int \<Rightarrow> int \<Rightarrow> int \<Rightarrow> int \<Rightarrow> Kernel \<Rightarrow> byte list
     \<Rightarrow> (int \<times> Kernel) option" where
  "vm_write_loop c pid sz start start_offset endp end_offset i cur k buf =
     (if i \<le> endp then
        (case map_page c k pid i of
           None \<Rightarrow> None
         | Some (ok, k') \<Rightarrow>
             if \<not> ok then Some (- 1, k')
             else
               (case get_pte k' pid i of
                  None \<Rightarrow> None
                | Some e \<Rightarrow>
                    (case write_page c (space k') sz start start_offset endp end_offset
                            i cur (PFN e) buf of
                       None \<Rightarrow> None
                     | Some (sp', cur') \<Rightarrow>
                         vm_write_loop c pid sz start start_offset endp end_offset
                           (i + 1) cur' (k'\<lparr>space := sp'\<rparr>) buf)))
      else Some (0, k))"
  by pat_completeness auto
termination
  by (relation "measure (\<lambda>(c, pid, sz, start, start_offset, endp, end_offset, i, cur, k, buf).
        nat (endp + 1 - i))") auto

declare vm_write_loop.simps [simp del]

text \<open>\<^verbatim>\<open>vm_write\<close> (lines 194-233).\<close>

definition vm_write ::
  "Config \<Rightarrow> Kernel \<Rightarrow> int \<Rightarrow> int \<Rightarrow> int \<Rightarrow> byte list \<Rightarrow> (int \<times> Kernel) option" where
  "vm_write c k pid addr sz buf =
     (if sz \<le> 0 then Some (- 1, k)
      else if pid < 0 \<or> int (length (mm k)) \<le> pid then None
      else if 0 > addr \<or> addr \<ge> size_mm (mm k ! nat pid) then Some (- 1, k)
      else if addr + sz > size_mm (mm k ! nat pid) then Some (- 1, k)
      else if PAGE_SIZE c = 0 then None
      else
        let start = addr sdiv PAGE_SIZE c; start_offset = addr smod PAGE_SIZE c;
            endp = (addr + sz - 1) sdiv PAGE_SIZE c; end_offset = (addr + sz) smod PAGE_SIZE c
        in vm_write_loop c pid sz start start_offset endp end_offset start 0 k buf)"

section \<open>Process exit\<close>

text \<open>The release loop of \<^verbatim>\<open>proc_exit_vm\<close> (lines 242-244), from entry \<open>i\<close>.\<close>

function release_frames :: "PTE list \<Rightarrow> bool list \<Rightarrow> int \<Rightarrow> int \<Rightarrow> bool list option" where
  "release_frames pt occ i n =
     (if i < n then
        (if i < 0 \<or> int (length pt) \<le> i then None
         else if present (pt ! nat i) then
           (if PFN (pt ! nat i) < 0 \<or> int (length occ) \<le> PFN (pt ! nat i) then None
            else release_frames pt (occ[nat (PFN (pt ! nat i)) := False]) (i + 1) n)
         else release_frames pt occ (i + 1) n)
      else Some occ)"
  by pat_completeness auto
termination
  by (relation "measure (\<lambda>(pt, occ, i, n). nat (n - i))") auto

declare release_frames.simps [simp del]

text \<open>\<^verbatim>\<open>proc_exit_vm\<close> (lines 237-257).\<close>

definition proc_exit_vm :: "Config \<Rightarrow> Kernel \<Rightarrow> int \<Rightarrow> (int \<times> Kernel) option" where
  "proc_exit_vm c k pid =
     (if pid < 0 \<or> int (length (running k)) \<le> pid then None
      else if \<not> running k ! nat pid then Some (- 1, k)
      else if int (length (mm k)) \<le> pid then None
      else if PAGE_SIZE c = 0 then None
      else
        let no_of_pages_allocated = (size_mm (mm k ! nat pid) - 1) sdiv PAGE_SIZE c + 1 in
        (case page_table (mm k ! nat pid) of
           None \<Rightarrow> None
         | Some pt \<Rightarrow>
             (case release_frames (ptes pt) (occupied_pages k) 0 no_of_pages_allocated of
                None \<Rightarrow> None
              | Some occ \<Rightarrow>
                  Some (0,
                    k\<lparr>occupied_pages := occ,
                           mm := (mm k)[nat pid := \<lparr>size_mm = 0, page_table = None\<rparr>],
                           allocated_pages := allocated_pages k - no_of_pages_allocated,
                           running := (running k)[nat pid := False]\<rparr>))))"

section \<open>The initial kernel\<close>

text \<open>
  Modelled from the spec: \<^verbatim>\<open>init_kernel\<close>, which is declared in \<^verbatim>\<open>kernel.h\<close> and
  defined outside the given source. The spec's kernel state has a physical space of
  \<^verbatim>\<open>KERNEL_SPACE_SIZE\<close> bytes, \<^verbatim>\<open>KERNEL_SPACE_SIZE / PAGE_SIZE\<close> frame flags,
  \<^verbatim>\<open>MAX_PROCESS_NUM\<close> slots, and its invariants make a kernel without processes one
  with every frame free, every slot free with size 0 and no page table, and no page
  allocated.
\<close>

definition init_kernel :: "Config \<Rightarrow> Kernel" where
  "init_kernel c =
     \<lparr>space = replicate (nat (KERNEL_SPACE_SIZE c)) 0,
      occupied_pages = replicate (nat (KERNEL_SPACE_SIZE c sdiv PAGE_SIZE c)) False,
      running = replicate (nat (MAX_PROCESS_NUM c)) False,
      mm = replicate (nat (MAX_PROCESS_NUM c)) \<lparr>size_mm = 0, page_table = None\<rparr>,
      allocated_pages = 0\<rparr>"

section \<open>Sequences of calls\<close>

text \<open>A call of one of the four operations with its arguments; \<open>run\<close> performs a
  sequence of calls from a kernel state, discarding the return values, and is \<open>None\<close>
  as soon as one call has undefined behaviour.\<close>

datatype call =
    ProcCreateVM int
  | ProcExitVM int
  | VmRead int int int "byte list"
  | VmWrite int int int "byte list"

fun step :: "Config \<Rightarrow> Kernel \<Rightarrow> call \<Rightarrow> Kernel option" where
  "step c k (ProcCreateVM sz) = map_option snd (proc_create_vm c k sz)"
| "step c k (ProcExitVM pid) = map_option snd (proc_exit_vm c k pid)"
| "step c k (VmRead pid addr sz buf) = map_option (\<lambda>r. fst (snd r)) (vm_read c k pid addr sz buf)"
| "step c k (VmWrite pid addr sz buf) = map_option snd (vm_write c k pid addr sz buf)"

fun run :: "Config \<Rightarrow> Kernel \<Rightarrow> call list \<Rightarrow> Kernel option" where
  "run c k [] = Some k"
| "run c k (x # xs) = (case step c k x of None \<Rightarrow> None | Some k' \<Rightarrow> run c k' xs)"

section \<open>Configurations and invariants\<close>

text \<open>A configuration the code can run with: pages have a positive size, the kernel
  space is not negative, and the admission sum of \<^verbatim>\<open>proc_create_vm\<close> fits a C
  \<^verbatim>\<open>int\<close>.\<close>

definition config_ok :: "Config \<Rightarrow> bool" where
  "config_ok c \<longleftrightarrow>
     0 < PAGE_SIZE c \<and> 0 \<le> KERNEL_SPACE_SIZE c \<and>
     KERNEL_SPACE_SIZE c sdiv PAGE_SIZE c + ((VIRTUAL_SPACE_SIZE c - 1) sdiv PAGE_SIZE c + 1)
       \<le> INT_MAX"

text \<open>Entry \<open>i\<close> of the page table of the running process \<open>p\<close> is present and holds
  frame number \<open>f\<close>.\<close>

definition maps_to :: "Kernel \<Rightarrow> nat \<Rightarrow> nat \<Rightarrow> int \<Rightarrow> bool" where
  "maps_to k p i f \<longleftrightarrow>
     p < length (mm k) \<and> p < length (running k) \<and> running k ! p \<and>
     (case page_table (mm k ! p) of
        None \<Rightarrow> False
      | Some pt \<Rightarrow> i < length (ptes pt) \<and> present (ptes pt ! i) \<and> PFN (ptes pt ! i) = f)"

text \<open>The number of entries of the page table of a slot (0 without a table).\<close>

definition table_len :: "MMStruct \<Rightarrow> nat" where
  "table_len m = (case page_table m of None \<Rightarrow> 0 | Some pt \<Rightarrow> length (ptes pt))"

text \<open>The arrays of the kernel have the lengths the configuration gives them.\<close>

definition shape_ok :: "Config \<Rightarrow> Kernel \<Rightarrow> bool" where
  "shape_ok c k \<longleftrightarrow>
     length (space k) = nat (KERNEL_SPACE_SIZE c) \<and>
     length (occupied_pages k) = nat (KERNEL_SPACE_SIZE c sdiv PAGE_SIZE c) \<and>
     length (running k) = nat (MAX_PROCESS_NUM c) \<and>
     length (mm k) = nat (MAX_PROCESS_NUM c)"

text \<open>A running slot has a size within the limit and a table of
  \<^verbatim>\<open>(size - 1) / PAGE_SIZE + 1\<close> entries; a free slot has size 0 and no table.\<close>

definition slots_ok :: "Config \<Rightarrow> Kernel \<Rightarrow> bool" where
  "slots_ok c k \<longleftrightarrow>
     (\<forall>p < length (mm k).
        if running k ! p then
          0 < size_mm (mm k ! p) \<and> size_mm (mm k ! p) \<le> VIRTUAL_SPACE_SIZE c \<and>
          page_table (mm k ! p) \<noteq> None \<and>
          int (table_len (mm k ! p)) = (size_mm (mm k ! p) - 1) sdiv PAGE_SIZE c + 1
        else size_mm (mm k ! p) = 0 \<and> page_table (mm k ! p) = None)"

text \<open>No frame is mapped twice, every mapped frame is a frame of the kernel marked
  occupied, and every occupied frame is mapped.\<close>

definition frames_ok :: "Config \<Rightarrow> Kernel \<Rightarrow> bool" where
  "frames_ok c k \<longleftrightarrow>
     (\<forall>p i q j f. maps_to k p i f \<and> maps_to k q j f \<longrightarrow> p = q \<and> i = j) \<and>
     (\<forall>p i f. maps_to k p i f \<longrightarrow>
        0 \<le> f \<and> f < KERNEL_SPACE_SIZE c sdiv PAGE_SIZE c \<and> occupied_pages k ! nat f) \<and>
     (\<forall>f. 0 \<le> f \<and> f < KERNEL_SPACE_SIZE c sdiv PAGE_SIZE c \<and> occupied_pages k ! nat f \<longrightarrow>
        (\<exists>p i. maps_to k p i f))"

text \<open>\<^verbatim>\<open>allocated_pages\<close> is the number of page-table entries of all slots and is
  within the number of frames.\<close>

definition pages_ok :: "Config \<Rightarrow> Kernel \<Rightarrow> bool" where
  "pages_ok c k \<longleftrightarrow>
     allocated_pages k = int (sum_list (map table_len (mm k))) \<and>
     allocated_pages k \<le> KERNEL_SPACE_SIZE c sdiv PAGE_SIZE c"

definition kernel_inv :: "Config \<Rightarrow> Kernel \<Rightarrow> bool" where
  "kernel_inv c k \<longleftrightarrow> shape_ok c k \<and> slots_ok c k \<and> frames_ok c k \<and> pages_ok c k"

text \<open>Page \<open>j\<close> of process \<open>pid\<close> has a page-table entry, which is present or not.\<close>

definition page_present :: "Kernel \<Rightarrow> int \<Rightarrow> int \<Rightarrow> bool" where
  "page_present k pid j = (case get_pte k pid j of None \<Rightarrow> False | Some e \<Rightarrow> present e)"

definition page_unmapped :: "Kernel \<Rightarrow> int \<Rightarrow> int \<Rightarrow> bool" where
  "page_unmapped k pid j = (case get_pte k pid j of None \<Rightarrow> False | Some e \<Rightarrow> \<not> present e)"

text \<open>Frame \<open>f\<close> is the lowest-indexed unoccupied frame; no frame is unoccupied.\<close>

definition lowest_free :: "Config \<Rightarrow> Kernel \<Rightarrow> int \<Rightarrow> bool" where
  "lowest_free c k f \<longleftrightarrow>
     0 \<le> f \<and> f < KERNEL_SPACE_SIZE c sdiv PAGE_SIZE c \<and> \<not> occupied_pages k ! nat f \<and>
     (\<forall>g \<in> {0..<f}. occupied_pages k ! nat g)"

definition frames_full :: "Config \<Rightarrow> Kernel \<Rightarrow> bool" where
  "frames_full c k \<longleftrightarrow>
     (\<forall>g \<in> {0..<KERNEL_SPACE_SIZE c sdiv PAGE_SIZE c}. occupied_pages k ! nat g)"

section \<open>Concrete configurations and states\<close>

text \<open>Three frames of four bytes, two process slots, at most two pages a process.\<close>

definition small_config :: Config where
  "small_config =
     \<lparr>KERNEL_SPACE_SIZE = 12, VIRTUAL_SPACE_SIZE = 8, PAGE_SIZE = 4, MAX_PROCESS_NUM = 2\<rparr>"

definition unmapped :: PTE where
  "unmapped = \<lparr>PFN = - 1, present = False\<rparr>"

definition free_slot :: MMStruct where
  "free_slot = \<lparr>size_mm = 0, page_table = None\<rparr>"

text \<open>One process of 8 bytes, nothing mapped yet.\<close>

definition one_proc :: Kernel where
  "one_proc =
     \<lparr>space = replicate 12 0, occupied_pages = [False, False, False],
      running = [True, False],
      mm = [\<lparr>size_mm = 8, page_table = Some \<lparr>ptes = [unmapped, unmapped]\<rparr>\<rparr>, free_slot],
      allocated_pages = 2\<rparr>"

text \<open>The same process after \<^verbatim>\<open>vm_write\<close> of the bytes 1..8 to \<open>[0, 8)\<close>.\<close>

definition one_proc_written :: Kernel where
  "one_proc_written =
     \<lparr>space = [1, 2, 3, 4] @ replicate 8 0, occupied_pages = [True, True, False],
      running = [True, False],
      mm = [\<lparr>size_mm = 8, page_table = Some \<lparr>ptes =
              [\<lparr>PFN = 0, present = True\<rparr>, \<lparr>PFN = 1, present = True\<rparr>]\<rparr>\<rparr>, free_slot],
      allocated_pages = 2\<rparr>"

text \<open>Two processes of 4 bytes: both slots taken, two of the three pages admitted.\<close>

definition two_procs :: Kernel where
  "two_procs =
     \<lparr>space = replicate 12 0, occupied_pages = [False, False, False],
      running = [True, True],
      mm = [\<lparr>size_mm = 4, page_table = Some \<lparr>ptes = [unmapped]\<rparr>\<rparr>,
            \<lparr>size_mm = 4, page_table = Some \<lparr>ptes = [unmapped]\<rparr>\<rparr>],
      allocated_pages = 2\<rparr>"

text \<open>A state with one free frame left for a process of two unmapped pages (the
  frames 0 and 1 are marked occupied), and the state after page 0 took frame 2.\<close>

definition scarce :: Kernel where
  "scarce =
     \<lparr>space = replicate 12 0, occupied_pages = [True, True, False],
      running = [True, False],
      mm = [\<lparr>size_mm = 8, page_table = Some \<lparr>ptes = [unmapped, unmapped]\<rparr>\<rparr>, free_slot],
      allocated_pages = 2\<rparr>"

definition scarce_after :: Kernel where
  "scarce_after =
     \<lparr>space = replicate 12 0, occupied_pages = [True, True, True],
      running = [True, False],
      mm = [\<lparr>size_mm = 8, page_table = Some \<lparr>ptes =
              [\<lparr>PFN = 2, present = True\<rparr>, unmapped]\<rparr>\<rparr>, free_slot],
      allocated_pages = 2\<rparr>"

section \<open>Evaluation rules\<close>

text \<open>The defining equations that evaluate the operations on concrete states.\<close>

lemmas eval_defs =
  proc_create_vm_def proc_exit_vm_def vm_read_def vm_write_def
  find_free_slot.simps first_fit.simps release_frames.simps
  vm_read_loop.simps vm_write_loop.simps
  map_page_def get_pte_def set_pte_def read_page_def write_page_def memcpy_def
  init_kernel_def int_range_def INT_MIN_def INT_MAX_def
  signed_divide_int_def signed_modulo_int_def
  small_config_def unmapped_def free_slot_def

section \<open>Arithmetic of the page count\<close>

lemma nat_index: "0 \<le> i \<Longrightarrow> i < int n \<Longrightarrow> nat i < n"
  by simp

lemma sdiv_nonneg: "0 \<le> a \<Longrightarrow> 0 < b \<Longrightarrow> a sdiv b = a div (b::int)"
  by (simp add: signed_divide_int_def sgn_if)

lemma smod_nonneg: "0 \<le> a \<Longrightarrow> 0 < b \<Longrightarrow> a smod b = a mod (b::int)"
  by (simp add: signed_modulo_int_def sgn_if)

text \<open>For a positive size and page size, the code's \<^verbatim>\<open>(size - 1) / PAGE_SIZE + 1\<close> is
  the spec's \<open>ceil(size / PAGE_SIZE)\<close>.\<close>

lemma pages_ceiling:
  assumes "0 < sz" "0 < (p::int)"
  shows "(sz - 1) sdiv p + 1 = \<lceil>real_of_int sz / real_of_int p\<rceil>"
proof -
  define q where "q = (sz - 1) div p"
  define r where "r = (sz - 1) mod p"
  have r: "0 \<le> r" "r < p" using assms by (simp_all add: r_def)
  have "sz - 1 = p * q + r" by (simp add: q_def r_def)
  then have "- sz = p * (- (q + 1)) + (p - r - 1)" by (simp add: algebra_simps)
  then have "- sz div p = - (q + 1)"
    using r int_div_pos_eq [of "- sz" p "- (q + 1)" "p - r - 1"] by simp
  then have "(sz - 1) div p + 1 = - (- sz div p)" by (simp add: q_def)
  then show ?thesis using assms by (simp add: sdiv_nonneg ceiling_divide_eq_div)
qed

section \<open>Properties of process creation\<close>

lemma find_free_slot_result:
  "find_free_slot c rs i = Some p \<Longrightarrow> 0 \<le> i \<Longrightarrow>
     (if p = - 1 then \<forall>j. i \<le> j \<and> j < MAX_PROCESS_NUM c \<longrightarrow> rs ! nat j
      else i \<le> p \<and> p < MAX_PROCESS_NUM c \<and> p < int (length rs) \<and> \<not> rs ! nat p \<and>
           (\<forall>j. i \<le> j \<and> j < p \<longrightarrow> rs ! nat j))"
proof (induction c rs i rule: find_free_slot.induct)
  case (1 c rs i)
  show ?case
  proof (cases "i < MAX_PROCESS_NUM c \<and> \<not> (i < 0 \<or> int (length rs) \<le> i) \<and> rs ! nat i")
    case True
    then have "find_free_slot c rs (i + 1) = Some p"
      using "1.prems"(1) by (subst (asm) find_free_slot.simps) simp
    then have IH: "if p = - 1 then \<forall>j. i + 1 \<le> j \<and> j < MAX_PROCESS_NUM c \<longrightarrow> rs ! nat j
      else i + 1 \<le> p \<and> p < MAX_PROCESS_NUM c \<and> p < int (length rs) \<and> \<not> rs ! nat p \<and>
           (\<forall>j. i + 1 \<le> j \<and> j < p \<longrightarrow> rs ! nat j)"
      using "1.IH" True "1.prems"(2) by simp
    have step: "\<And>j. i \<le> j \<Longrightarrow> j = i \<or> i + 1 \<le> j" by arith
    show ?thesis
    proof (cases "p = - 1")
      case True
      then show ?thesis using IH \<open>i < MAX_PROCESS_NUM c \<and> _\<close> step by auto
    next
      case False
      then show ?thesis using IH True step by auto
    qed
  next
    case False
    then show ?thesis
      using "1.prems" by (subst (asm) find_free_slot.simps) (auto split: if_splits)
  qed
qed

lemma find_free_slot_none_free:
  "find_free_slot c rs i = Some p \<Longrightarrow> 0 \<le> i \<Longrightarrow>
     (\<forall>j. i \<le> j \<and> j < MAX_PROCESS_NUM c \<longrightarrow> rs ! nat j) \<Longrightarrow> p = - 1"
  using find_free_slot_result [of c rs i p] by (auto split: if_splits)

lemma proc_create_vm_cases:
  assumes "proc_create_vm c k sz = Some (r, k')"
  shows "(r = - 1 \<longleftrightarrow>
            sz \<le> 0 \<or> VIRTUAL_SPACE_SIZE c < sz \<or>
            KERNEL_SPACE_SIZE c sdiv PAGE_SIZE c
              < allocated_pages k + ((sz - 1) sdiv PAGE_SIZE c + 1) \<or>
            (\<forall>i. 0 \<le> i \<and> i < MAX_PROCESS_NUM c \<longrightarrow> running k ! nat i))"
    and "r = - 1 \<Longrightarrow> k' = k"
    and "r \<noteq> - 1 \<Longrightarrow>
           0 \<le> r \<and> r < MAX_PROCESS_NUM c \<and> r < int (length (running k)) \<and>
           r < int (length (mm k)) \<and> \<not> running k ! nat r \<and>
           (\<forall>j. 0 \<le> j \<and> j < r \<longrightarrow> running k ! nat j) \<and>
           k' = k\<lparr>allocated_pages := allocated_pages k + ((sz - 1) sdiv PAGE_SIZE c + 1),
                  running := (running k)[nat r := True],
                  mm := (mm k)[nat r :=
                    \<lparr>size_mm = sz,
                     page_table = Some \<lparr>ptes =
                       replicate (nat ((sz - 1) sdiv PAGE_SIZE c + 1))
                         \<lparr>PFN = - 1, present = False\<rparr>\<rparr>\<rparr>]\<rparr>"
proof -
  show "r = - 1 \<Longrightarrow> k' = k"
    using assms
    by (auto simp: proc_create_vm_def Let_def split: if_splits option.splits)
  show "(r = - 1 \<longleftrightarrow>
            sz \<le> 0 \<or> VIRTUAL_SPACE_SIZE c < sz \<or>
            KERNEL_SPACE_SIZE c sdiv PAGE_SIZE c
              < allocated_pages k + ((sz - 1) sdiv PAGE_SIZE c + 1) \<or>
            (\<forall>i. 0 \<le> i \<and> i < MAX_PROCESS_NUM c \<longrightarrow> running k ! nat i))"
    using assms find_free_slot_result [of c "running k" 0]
    by (simp add: proc_create_vm_def Let_def split: if_splits option.splits)
      (auto split: if_splits)
  show "r \<noteq> - 1 \<Longrightarrow>
           0 \<le> r \<and> r < MAX_PROCESS_NUM c \<and> r < int (length (running k)) \<and>
           r < int (length (mm k)) \<and> \<not> running k ! nat r \<and>
           (\<forall>j. 0 \<le> j \<and> j < r \<longrightarrow> running k ! nat j) \<and>
           k' = k\<lparr>allocated_pages := allocated_pages k + ((sz - 1) sdiv PAGE_SIZE c + 1),
                  running := (running k)[nat r := True],
                  mm := (mm k)[nat r :=
                    \<lparr>size_mm = sz,
                     page_table = Some \<lparr>ptes =
                       replicate (nat ((sz - 1) sdiv PAGE_SIZE c + 1))
                         \<lparr>PFN = - 1, present = False\<rparr>\<rparr>\<rparr>]\<rparr>"
    using assms find_free_slot_result [of c "running k" 0]
    by (simp add: proc_create_vm_def Let_def split: if_splits option.splits)
qed


text \<open>
  Claim C10. Whenever \<^verbatim>\<open>proc_create_vm\<close> fails, the kernel state is the one before the
  call. It returns \<open>-1\<close> exactly for one of its three causes: an invalid size, an
  admission sum above \<^verbatim>\<open>KERNEL_SPACE_SIZE / PAGE_SIZE\<close>, or no free slot among the
  \<^verbatim>\<open>MAX_PROCESS_NUM\<close> slots.
\<close>

theorem proc_create_vm_failure_atomic:
  assumes "proc_create_vm c k sz = Some (r, k')"
  shows "(r = - 1 \<longleftrightarrow>
            sz \<le> 0 \<or> VIRTUAL_SPACE_SIZE c < sz \<or>
            KERNEL_SPACE_SIZE c sdiv PAGE_SIZE c
              < allocated_pages k + ((sz - 1) sdiv PAGE_SIZE c + 1) \<or>
            (\<forall>i. 0 \<le> i \<and> i < MAX_PROCESS_NUM c \<longrightarrow> running k ! nat i)) \<and>
         (r = - 1 \<longrightarrow> k' = k)"
  using proc_create_vm_cases(1,2) [OF assms] by blast

theorem proc_create_vm_failure_atomic_witness:
  "proc_create_vm small_config two_procs 0 = Some (- 1, two_procs) \<and>
   proc_create_vm small_config two_procs 9 = Some (- 1, two_procs) \<and>
   proc_create_vm small_config two_procs 4 = Some (- 1, two_procs) \<and>
   proc_create_vm small_config one_proc 8 = Some (- 1, one_proc) \<and>
   ((- 1 = (- 1 :: int)) \<longleftrightarrow>
      (4::int) \<le> 0 \<or> VIRTUAL_SPACE_SIZE small_config < 4 \<or>
      KERNEL_SPACE_SIZE small_config sdiv PAGE_SIZE small_config
        < allocated_pages two_procs + ((4 - 1) sdiv PAGE_SIZE small_config + 1) \<or>
      (\<forall>i. 0 \<le> i \<and> i < MAX_PROCESS_NUM small_config \<longrightarrow> running two_procs ! nat i))"
proof -
  have a: "proc_create_vm small_config two_procs 4 = Some (- 1, two_procs)"
    by (simp add: eval_defs two_procs_def eval_nat_numeral)
  have b: "proc_create_vm small_config two_procs 0 = Some (- 1, two_procs)"
    by (simp add: eval_defs two_procs_def eval_nat_numeral)
  have c: "proc_create_vm small_config two_procs 9 = Some (- 1, two_procs)"
    by (simp add: eval_defs two_procs_def eval_nat_numeral)
  have d: "proc_create_vm small_config one_proc 8 = Some (- 1, one_proc)"
    by (simp add: eval_defs one_proc_def eval_nat_numeral)
  show ?thesis
    using proc_create_vm_failure_atomic [OF a] a b c d by simp
qed

text \<open>
  Claim C5. A successful \<^verbatim>\<open>proc_create_vm\<close> returns the lowest-numbered free slot; the
  slot gets a page table of \<open>ceil(size / PAGE_SIZE)\<close> entries, each with frame number
  \<open>-1\<close> and not present; \<^verbatim>\<open>allocated_pages\<close> grows by that number; the slot is marked
  running; the frame occupancy array and the physical space are unchanged.
\<close>

theorem proc_create_vm_success:
  assumes "0 < PAGE_SIZE c" and "proc_create_vm c k sz = Some (pid, k')" and "pid \<noteq> - 1"
  shows "0 \<le> pid \<and> pid < MAX_PROCESS_NUM c \<and> \<not> running k ! nat pid \<and>
         (\<forall>j. 0 \<le> j \<and> j < pid \<longrightarrow> running k ! nat j) \<and>
         page_table (mm k' ! nat pid) =
           Some \<lparr>ptes = replicate (nat \<lceil>real_of_int sz / real_of_int (PAGE_SIZE c)\<rceil>)
                          \<lparr>PFN = - 1, present = False\<rparr>\<rparr> \<and>
         size_mm (mm k' ! nat pid) = sz \<and>
         allocated_pages k' = allocated_pages k + \<lceil>real_of_int sz / real_of_int (PAGE_SIZE c)\<rceil> \<and>
         running k' ! nat pid \<and>
         occupied_pages k' = occupied_pages k \<and> space k' = space k"
proof -
  have "\<not> (sz \<le> 0)"
    using proc_create_vm_cases(1) [OF assms(2)] assms(3) by blast
  then have n: "(sz - 1) sdiv PAGE_SIZE c + 1 = \<lceil>real_of_int sz / real_of_int (PAGE_SIZE c)\<rceil>"
    using pages_ceiling [of sz "PAGE_SIZE c"] assms(1) by simp
  have "nat pid < length (mm k)" "nat pid < length (running k)"
    using proc_create_vm_cases(3) [OF assms(2,3)] by (simp_all add: nat_index)
  then show ?thesis
    using proc_create_vm_cases(3) [OF assms(2,3)] n by simp
qed

theorem proc_create_vm_success_witness:
  "0 < PAGE_SIZE small_config \<and>
   proc_create_vm small_config one_proc 3 =
     Some (1, one_proc\<lparr>allocated_pages := 3, running := [True, True],
       mm := [mm one_proc ! 0, \<lparr>size_mm = 3, page_table = Some \<lparr>ptes = [unmapped]\<rparr>\<rparr>]\<rparr>) \<and>
   (1::int) \<noteq> - 1 \<and>
   \<not> running one_proc ! nat 1 \<and> running one_proc ! nat 0 \<and>
   \<lceil>real_of_int 3 / real_of_int (PAGE_SIZE small_config)\<rceil> = 1"
proof -
  have p: "0 < PAGE_SIZE small_config" by (simp add: small_config_def)
  have a: "proc_create_vm small_config one_proc 3 =
     Some (1, one_proc\<lparr>allocated_pages := 3, running := [True, True],
       mm := [mm one_proc ! 0, \<lparr>size_mm = 3, page_table = Some \<lparr>ptes = [unmapped]\<rparr>\<rparr>]\<rparr>)"
    by (simp add: eval_defs one_proc_def eval_nat_numeral)
  have n: "(1::int) \<noteq> - 1" by simp
  show ?thesis
    using proc_create_vm_success [OF p a n] p a
    by (simp add: one_proc_def small_config_def)
qed

section \<open>Bounds rejection\<close>




section \<open>Return values of the page loops\<close>



section \<open>Round trip\<close>

text \<open>
  Claim C1 fails on the code. A process of 8 bytes with pages of 4 bytes writes the
  bytes 1..8 to \<open>[0, 8)\<close> and reads the range back into a zeroed buffer: both calls
  return 0, yet only the first page is copied, because for a range of several pages
  that ends on a page boundary \<^verbatim>\<open>end_offset = (addr + size) % PAGE_SIZE\<close> is 0 and the
  last page's \<^verbatim>\<open>memcpy\<close> copies no byte.
\<close>

theorem roundtrip_loses_aligned_last_page:
  "run small_config (init_kernel small_config) [ProcCreateVM 8] = Some one_proc \<and>
   vm_write small_config one_proc 0 0 8 [1, 2, 3, 4, 5, 6, 7, 8] = Some (0, one_proc_written) \<and>
   vm_read small_config one_proc_written 0 0 8 (replicate 8 0) =
     Some (0, one_proc_written, [1, 2, 3, 4, 0, 0, 0, 0])"
  by (simp add: eval_defs one_proc_def one_proc_written_def eval_nat_numeral)

section \<open>First fit and the mapping block\<close>

lemma first_fit_result:
  "first_fit c occ j = Some (f, occ') \<Longrightarrow> 0 \<le> j \<Longrightarrow>
     (if f = - 1
      then occ' = occ \<and> (\<forall>g. j \<le> g \<and> g < KERNEL_SPACE_SIZE c sdiv PAGE_SIZE c \<longrightarrow> occ ! nat g)
      else j \<le> f \<and> f < KERNEL_SPACE_SIZE c sdiv PAGE_SIZE c \<and> f < int (length occ) \<and>
           \<not> occ ! nat f \<and> occ' = occ[nat f := True] \<and>
           (\<forall>g. j \<le> g \<and> g < f \<longrightarrow> occ ! nat g))"
proof (induction c occ j rule: first_fit.induct)
  case (1 c occ j)
  show ?case
  proof (cases "j < KERNEL_SPACE_SIZE c sdiv PAGE_SIZE c \<and> \<not> (j < 0 \<or> int (length occ) \<le> j)
      \<and> occ ! nat j")
    case True
    then have "first_fit c occ (j + 1) = Some (f, occ')"
      using "1.prems"(1) by (subst (asm) first_fit.simps) simp
    then have IH: "if f = - 1
      then occ' = occ \<and> (\<forall>g. j + 1 \<le> g \<and> g < KERNEL_SPACE_SIZE c sdiv PAGE_SIZE c \<longrightarrow> occ ! nat g)
      else j + 1 \<le> f \<and> f < KERNEL_SPACE_SIZE c sdiv PAGE_SIZE c \<and> f < int (length occ) \<and>
           \<not> occ ! nat f \<and> occ' = occ[nat f := True] \<and>
           (\<forall>g. j + 1 \<le> g \<and> g < f \<longrightarrow> occ ! nat g)"
      using "1.IH" True "1.prems"(2) by simp
    have step: "\<And>g. j \<le> g \<Longrightarrow> g = j \<or> j + 1 \<le> g" by arith
    show ?thesis
    proof (cases "f = - 1")
      case True
      then show ?thesis using IH \<open>j < _ \<and> _\<close> step by auto
    next
      case False
      then show ?thesis using IH True step by auto
    qed
  next
    case False
    then show ?thesis
      using "1.prems" by (subst (asm) first_fit.simps) (auto split: if_splits)
  qed
qed

lemma first_fit_defined:
  "0 \<le> j \<Longrightarrow> KERNEL_SPACE_SIZE c sdiv PAGE_SIZE c \<le> int (length occ) \<Longrightarrow>
     \<exists>r. first_fit c occ j = Some r"
proof (induction c occ j rule: first_fit.induct)
  case (1 c occ j)
  show ?case
  proof (cases "j < KERNEL_SPACE_SIZE c sdiv PAGE_SIZE c \<and> occ ! nat j")
    case True
    then have "\<exists>r. first_fit c occ (j + 1) = Some r"
      using "1.IH" "1.prems" by simp
    then show ?thesis
      using True "1.prems" by (subst first_fit.simps) simp
  next
    case False
    then show ?thesis
      using "1.prems" by (subst first_fit.simps) auto
  qed
qed

lemma get_pteD:
  assumes "get_pte k pid i = Some e"
  shows "0 \<le> pid \<and> nat pid < length (mm k) \<and> 0 \<le> i \<and>
         (\<exists>pt. page_table (mm k ! nat pid) = Some pt \<and> nat i < length (ptes pt) \<and>
               e = ptes pt ! nat i)"
  using assms by (auto simp: get_pte_def split: if_splits option.splits)

lemma map_page_cases:
  assumes "map_page c k pid i = Some (ok, k')"
  obtains (old) e where "get_pte k pid i = Some e" "present e" "ok" "k' = k"
  | (full) e where "get_pte k pid i = Some e" "\<not> present e" "\<not> ok" "k' = k"
      "\<forall>g. 0 \<le> g \<and> g < KERNEL_SPACE_SIZE c sdiv PAGE_SIZE c \<longrightarrow> occupied_pages k ! nat g"
  | (mapped) e f where "get_pte k pid i = Some e" "\<not> present e" "ok"
      "0 \<le> f" "f < KERNEL_SPACE_SIZE c sdiv PAGE_SIZE c" "f < int (length (occupied_pages k))"
      "\<not> occupied_pages k ! nat f" "\<forall>g. 0 \<le> g \<and> g < f \<longrightarrow> occupied_pages k ! nat g"
      "k' = set_pte (k\<lparr>occupied_pages := (occupied_pages k)[nat f := True]\<rparr>) pid i
              \<lparr>PFN = f, present = True\<rparr>"
proof -
  obtain e where e: "get_pte k pid i = Some e"
    using assms by (auto simp: map_page_def split: option.splits)
  show thesis
  proof (cases "present e")
    case True
    then have "ok \<and> k' = k" using assms e by (simp add: map_page_def)
    then show ?thesis using old [OF e True] by simp
  next
    case False
    then obtain f occ' where ff: "first_fit c (occupied_pages k) 0 = Some (f, occ')"
      using assms e by (auto simp: map_page_def split: option.splits)
    note r = first_fit_result [OF ff]
    show ?thesis
    proof (cases "f = - 1")
      case True
      then have "occ' = occupied_pages k"
        and "\<forall>g. 0 \<le> g \<and> g < KERNEL_SPACE_SIZE c sdiv PAGE_SIZE c \<longrightarrow> occupied_pages k ! nat g"
        using r by simp_all
      moreover have "\<not> ok \<and> k' = k\<lparr>occupied_pages := occ'\<rparr>"
        using assms e False ff True by (simp add: map_page_def)
      ultimately show ?thesis using full [OF e False] by simp
    next
      case f: False
      then have *: "0 \<le> f" "f < KERNEL_SPACE_SIZE c sdiv PAGE_SIZE c"
        "f < int (length (occupied_pages k))" "\<not> occupied_pages k ! nat f"
        "\<forall>g. 0 \<le> g \<and> g < f \<longrightarrow> occupied_pages k ! nat g"
        "occ' = (occupied_pages k)[nat f := True]"
        using r by simp_all
      have "ok \<and> k' = set_pte (k\<lparr>occupied_pages := occ'\<rparr>) pid i \<lparr>PFN = f, present = True\<rparr>"
        using assms e False ff f by (simp add: map_page_def)
      then show ?thesis using mapped [OF e False _ *(1-5)] *(6) by simp
    qed
  qed
qed

lemma maps_to_set_pte:
  assumes "get_pte k pid i = Some e" and "\<not> present e"
    and "nat pid < length (running k)" and "running k ! nat pid"
  shows "maps_to (set_pte (k\<lparr>occupied_pages := occ'\<rparr>) pid i \<lparr>PFN = f, present = True\<rparr>) p j g
           \<longleftrightarrow> maps_to k p j g \<or> (p = nat pid \<and> j = nat i \<and> g = f)"
proof -
  obtain pt where pt: "nat pid < length (mm k)" "page_table (mm k ! nat pid) = Some pt"
    "nat i < length (ptes pt)" "e = ptes pt ! nat i"
    using get_pteD [OF assms(1)] by blast
  show ?thesis
  proof (cases "p = nat pid")
    case True
    then show ?thesis
      using pt assms(2-4)
      by (cases "j = nat i") (auto simp: maps_to_def set_pte_def)
  next
    case False
    then show ?thesis by (auto simp: maps_to_def set_pte_def)
  qed
qed

lemma running_of_table:
  assumes "slots_ok c k" and "p < length (mm k)" and "page_table (mm k ! p) = Some pt"
  shows "running k ! p"
  using assms unfolding slots_ok_def by (metis option.distinct(1))

lemma table_len_set_pte:
  "map table_len (mm (set_pte k pid i e)) = map table_len (mm k)"
proof (rule nth_equalityI)
  show "length (map table_len (mm (set_pte k pid i e))) = length (map table_len (mm k))"
    by (simp add: set_pte_def)
  fix p assume "p < length (map table_len (mm (set_pte k pid i e)))"
  then have p: "p < length (mm k)" by (simp add: set_pte_def)
  show "map table_len (mm (set_pte k pid i e)) ! p = map table_len (mm k) ! p"
    using p
    by (cases "p = nat pid")
      (auto simp: set_pte_def table_len_def split: option.splits)
qed

lemma kernel_inv_map_page:
  assumes inv: "kernel_inv c k" and mp: "map_page c k pid i = Some (ok, k')"
  shows "kernel_inv c k'"
  using mp
proof (cases rule: map_page_cases)
  case (old e)
  then show ?thesis using inv by simp
next
  case (full e)
  then show ?thesis using inv by simp
next
  case (mapped e f)
  let ?occ = "(occupied_pages k)[nat f := True]"
  have sh: "shape_ok c k" and sl: "slots_ok c k" and fr: "frames_ok c k" and pg: "pages_ok c k"
    using inv by (simp_all add: kernel_inv_def)
  obtain pt where pt: "nat pid < length (mm k)" "page_table (mm k ! nat pid) = Some pt"
    "nat i < length (ptes pt)" "e = ptes pt ! nat i"
    using get_pteD [OF mapped(1)] by blast
  have run: "nat pid < length (running k)" "running k ! nat pid"
    using sh pt(1) running_of_table [OF sl pt(1,2)] by (simp_all add: shape_ok_def)
  have k': "k' = set_pte (k\<lparr>occupied_pages := ?occ\<rparr>) pid i \<lparr>PFN = f, present = True\<rparr>"
    by (fact mapped(9))
  have mt: "\<And>p j g. maps_to k' p j g \<longleftrightarrow> maps_to k p j g \<or> (p = nat pid \<and> j = nat i \<and> g = f)"
    unfolding k' by (rule maps_to_set_pte [OF mapped(1,2) run])
  have occ': "occupied_pages k' = ?occ" and rest: "running k' = running k" "space k' = space k"
    "allocated_pages k' = allocated_pages k" "length (mm k') = length (mm k)"
    by (simp_all add: k' set_pte_def)
  have "shape_ok c k'"
    using sh by (simp add: shape_ok_def occ' rest)
  moreover have "slots_ok c k'"
    unfolding slots_ok_def
  proof (intro allI impI)
    fix p assume "p < length (mm k')"
    then have p: "p < length (mm k)" by (simp add: rest)
    have old: "if running k ! p then
          0 < size_mm (mm k ! p) \<and> size_mm (mm k ! p) \<le> VIRTUAL_SPACE_SIZE c \<and>
          page_table (mm k ! p) \<noteq> None \<and>
          int (table_len (mm k ! p)) = (size_mm (mm k ! p) - 1) sdiv PAGE_SIZE c + 1
        else size_mm (mm k ! p) = 0 \<and> page_table (mm k ! p) = None"
      using sl p by (simp add: slots_ok_def)
    have "size_mm (mm k' ! p) = size_mm (mm k ! p)"
      "page_table (mm k' ! p) = None \<longleftrightarrow> page_table (mm k ! p) = None"
      using p by (cases "p = nat pid"; simp add: k' set_pte_def)+
    moreover have "table_len (mm k' ! p) = table_len (mm k ! p)"
    proof -
      have "map table_len (mm k') ! p = map table_len (mm k) ! p"
        unfolding k' table_len_set_pte by simp
      then show ?thesis using p by (simp add: rest)
    qed
    ultimately show "if running k' ! p then
          0 < size_mm (mm k' ! p) \<and> size_mm (mm k' ! p) \<le> VIRTUAL_SPACE_SIZE c \<and>
          page_table (mm k' ! p) \<noteq> None \<and>
          int (table_len (mm k' ! p)) = (size_mm (mm k' ! p) - 1) sdiv PAGE_SIZE c + 1
        else size_mm (mm k' ! p) = 0 \<and> page_table (mm k' ! p) = None"
      using old by (simp add: rest)
  qed
  moreover have "frames_ok c k'"
  proof -
    have nomap: "\<And>p j. \<not> maps_to k p j f"
      using fr mapped(7) unfolding frames_ok_def by blast
    have upd: "\<And>g. 0 \<le> g \<Longrightarrow> ?occ ! nat g = (g = f \<or> occupied_pages k ! nat g)"
      using mapped(4,6) by (auto simp: nth_list_update)
    have 1: "\<forall>p i q j g. maps_to k' p i g \<and> maps_to k' q j g \<longrightarrow> p = q \<and> i = j"
      using fr nomap unfolding frames_ok_def mt by blast
    have 2: "\<forall>p i g. maps_to k' p i g \<longrightarrow>
        0 \<le> g \<and> g < KERNEL_SPACE_SIZE c sdiv PAGE_SIZE c \<and> occupied_pages k' ! nat g"
      using fr mapped(4,5) upd unfolding frames_ok_def mt occ' by blast
    have 3: "\<forall>g. 0 \<le> g \<and> g < KERNEL_SPACE_SIZE c sdiv PAGE_SIZE c \<and> occupied_pages k' ! nat g \<longrightarrow>
        (\<exists>p i. maps_to k' p i g)"
      using fr upd unfolding frames_ok_def mt occ' by blast
    show ?thesis unfolding frames_ok_def using 1 2 3 by blast
  qed
  moreover have "pages_ok c k'"
  proof -
    have "map table_len (mm k') = map table_len (mm k)"
      unfolding k' table_len_set_pte by simp
    then show ?thesis using pg by (simp add: pages_ok_def rest)
  qed
  ultimately show ?thesis by (simp add: kernel_inv_def)
qed

section \<open>The page loops keep the invariant\<close>

lemma memcpy_length: "memcpy dst d src s n = Some r \<Longrightarrow> length r = length dst"
  by (auto simp: memcpy_def split: if_splits)

lemma write_page_length:
  "write_page c sp sz start so endp eo i cur pfn buf = Some (sp', cur') \<Longrightarrow> length sp' = length sp"
  by (auto simp: write_page_def split: if_splits dest: memcpy_length)

lemma read_page_length:
  "read_page c sp sz start so endp eo i cur pfn buf = Some (buf', cur') \<Longrightarrow> length buf' = length buf"
  by (auto simp: read_page_def split: if_splits dest: memcpy_length)

lemma maps_to_space [simp]: "maps_to (k\<lparr>space := sp\<rparr>) = maps_to k"
  by (simp add: maps_to_def fun_eq_iff)

lemma kernel_inv_space:
  "kernel_inv c k \<Longrightarrow> length sp = length (space k) \<Longrightarrow> kernel_inv c (k\<lparr>space := sp\<rparr>)"
  by (simp add: kernel_inv_def shape_ok_def slots_ok_def frames_ok_def pages_ok_def)

lemma vm_read_loop_preserves:
  assumes "vm_read_loop c pid sz start so endp eo i cur k buf = Some (r, k', buf')"
    and "P k"
    and "\<And>k j ok k'. P k \<Longrightarrow> map_page c k pid j = Some (ok, k') \<Longrightarrow> P k'"
  shows "P k'"
  using assms
proof (induction c pid sz start so endp eo i cur k buf rule: vm_read_loop.induct)
  case (1 c pid sz start so endp eo i cur k buf)
  note step = "1.prems"(3)
  show ?case
  proof (cases "i \<le> endp")
    case False
    then show ?thesis using "1.prems" by (subst (asm) vm_read_loop.simps) simp
  next
    case True
    obtain ok k1 where mp: "map_page c k pid i = Some (ok, k1)"
      using "1.prems"(1) True by (subst (asm) vm_read_loop.simps) (auto split: option.splits)
    have P1: "P k1" using step [OF "1.prems"(2) mp] .
    show ?thesis
    proof (cases ok)
      case False
      then show ?thesis
        using "1.prems"(1) True mp P1 by (subst (asm) vm_read_loop.simps) simp
    next
      case ok: True
      obtain e b1 c1 where e: "get_pte k1 pid i = Some e"
        and rp: "read_page c (space k1) sz start so endp eo i cur (PFN e) buf = Some (b1, c1)"
        and rec: "vm_read_loop c pid sz start so endp eo (i + 1) c1 k1 b1 = Some (r, k', buf')"
        using "1.prems"(1) True mp ok
        by (subst (asm) vm_read_loop.simps) (auto split: option.splits)
      have nn: "\<not> \<not> ok" using ok by simp
      show ?thesis
        by (rule "1.IH" [OF True mp refl nn e rp refl rec P1 step])
    qed
  qed
qed

lemma vm_write_loop_preserves:
  assumes "vm_write_loop c pid sz start so endp eo i cur k buf = Some (r, k')"
    and "P k"
    and "\<And>k j ok k'. P k \<Longrightarrow> map_page c k pid j = Some (ok, k') \<Longrightarrow> P k'"
    and "\<And>k sp. P k \<Longrightarrow> length sp = length (space k) \<Longrightarrow> P (k\<lparr>space := sp\<rparr>)"
  shows "P k'"
  using assms
proof (induction c pid sz start so endp eo i cur k buf rule: vm_write_loop.induct)
  case (1 c pid sz start so endp eo i cur k buf)
  note step = "1.prems"(3) and sp = "1.prems"(4)
  show ?case
  proof (cases "i \<le> endp")
    case False
    then show ?thesis using "1.prems" by (subst (asm) vm_write_loop.simps) simp
  next
    case True
    obtain ok k1 where mp: "map_page c k pid i = Some (ok, k1)"
      using "1.prems"(1) True by (subst (asm) vm_write_loop.simps) (auto split: option.splits)
    have P1: "P k1" using step [OF "1.prems"(2) mp] .
    show ?thesis
    proof (cases ok)
      case False
      then show ?thesis
        using "1.prems"(1) True mp P1 by (subst (asm) vm_write_loop.simps) simp
    next
      case ok: True
      obtain e s1 c1 where e: "get_pte k1 pid i = Some e"
        and wp: "write_page c (space k1) sz start so endp eo i cur (PFN e) buf = Some (s1, c1)"
        and rec: "vm_write_loop c pid sz start so endp eo (i + 1) c1 (k1\<lparr>space := s1\<rparr>) buf
                    = Some (r, k')"
        using "1.prems"(1) True mp ok
        by (subst (asm) vm_write_loop.simps) (auto split: option.splits)
      have P2: "P (k1\<lparr>space := s1\<rparr>)"
        using sp [OF P1] write_page_length [OF wp] by simp
      have nn: "\<not> \<not> ok" using ok by simp
      show ?thesis
        by (rule "1.IH" [OF True mp refl nn e wp refl rec P2 step sp])
    qed
  qed
qed

lemma kernel_inv_vm_read:
  assumes "kernel_inv c k" and "vm_read c k pid addr sz buf = Some (r, k', buf')"
  shows "kernel_inv c k'"
proof (cases "vm_read c k pid addr sz buf = Some (- 1, k, buf)")
  case True
  then show ?thesis using assms by simp
next
  case False
  then have "vm_read_loop c pid sz (addr sdiv PAGE_SIZE c) (addr smod PAGE_SIZE c)
      ((addr + sz - 1) sdiv PAGE_SIZE c) ((addr + sz) smod PAGE_SIZE c)
      (addr sdiv PAGE_SIZE c) 0 k buf = Some (r, k', buf')"
    using assms(2) by (simp add: vm_read_def Let_def split: if_splits)
  then show ?thesis
    using assms(1) kernel_inv_map_page by (rule vm_read_loop_preserves)
qed

lemma kernel_inv_vm_write:
  assumes "kernel_inv c k" and "vm_write c k pid addr sz buf = Some (r, k')"
  shows "kernel_inv c k'"
proof (cases "vm_write c k pid addr sz buf = Some (- 1, k)")
  case True
  then show ?thesis using assms by simp
next
  case False
  then have "vm_write_loop c pid sz (addr sdiv PAGE_SIZE c) (addr smod PAGE_SIZE c)
      ((addr + sz - 1) sdiv PAGE_SIZE c) ((addr + sz) smod PAGE_SIZE c)
      (addr sdiv PAGE_SIZE c) 0 k buf = Some (r, k')"
    using assms(2) by (simp add: vm_write_def Let_def split: if_splits)
  then show ?thesis
    using assms(1) kernel_inv_map_page kernel_inv_space by (rule vm_write_loop_preserves)
qed

lemma sdiv_pos_nonneg: "0 \<le> a \<Longrightarrow> 0 < b \<Longrightarrow> 0 \<le> a sdiv (b::int)"
  by (simp add: sdiv_nonneg pos_imp_zdiv_nonneg_iff)

lemma kernel_inv_init:
  assumes "config_ok c"
  shows "kernel_inv c (init_kernel c)"
proof -
  have F: "0 \<le> KERNEL_SPACE_SIZE c sdiv PAGE_SIZE c"
    using assms by (simp add: config_ok_def sdiv_pos_nonneg)
  have nomap: "\<And>p i f. \<not> maps_to (init_kernel c) p i f"
    by (simp add: maps_to_def init_kernel_def)
  have "shape_ok c (init_kernel c)"
    by (simp add: shape_ok_def init_kernel_def)
  moreover have "slots_ok c (init_kernel c)"
    by (simp add: slots_ok_def init_kernel_def)
  moreover have "frames_ok c (init_kernel c)"
    unfolding frames_ok_def using nomap by (auto simp: init_kernel_def)
  moreover have "pages_ok c (init_kernel c)"
    using F by (simp add: pages_ok_def init_kernel_def table_len_def sum_list_replicate)
  ultimately show ?thesis by (simp add: kernel_inv_def)
qed

section \<open>Releasing frames\<close>

lemma ex_from_split:
  "(\<exists>j::int. i \<le> j \<and> Q j) \<longleftrightarrow> Q i \<or> (\<exists>j. i + 1 \<le> j \<and> Q j)"
proof
  assume "\<exists>j. i \<le> j \<and> Q j"
  then obtain j where j: "i \<le> j" "Q j" by blast
  then have "j = i \<or> i + 1 \<le> j" by arith
  then show "Q i \<or> (\<exists>j. i + 1 \<le> j \<and> Q j)" using j by blast
next
  assume "Q i \<or> (\<exists>j. i + 1 \<le> j \<and> Q j)"
  then show "\<exists>j. i \<le> j \<and> Q j"
  proof
    assume "Q i" then show ?thesis by auto
  next
    assume "\<exists>j. i + 1 \<le> j \<and> Q j"
    then obtain j where "i + 1 \<le> j" "Q j" by blast
    then have "i \<le> j \<and> Q j" by simp
    then show ?thesis by blast
  qed
qed

lemma release_frames_result:
  "release_frames pt occ i n = Some occ' \<Longrightarrow> 0 \<le> i \<Longrightarrow>
     length occ' = length occ \<and>
     (\<forall>g < length occ. occ' ! g \<longleftrightarrow>
        occ ! g \<and> \<not> (\<exists>j. i \<le> j \<and> j < n \<and> present (pt ! nat j) \<and> PFN (pt ! nat j) = int g))"
proof (induction pt occ i n arbitrary: occ' rule: release_frames.induct)
  case (1 pt occ i n)
  show ?case
  proof (cases "i < n")
    case False
    then show ?thesis using "1.prems" by (subst (asm) release_frames.simps) auto
  next
    case True
    then have rng: "\<not> (i < 0 \<or> int (length pt) \<le> i)"
      using "1.prems"(1) by (subst (asm) release_frames.simps) (auto split: if_splits)
    have split: "\<And>g. (\<exists>j. i \<le> j \<and> j < n \<and> present (pt ! nat j) \<and> PFN (pt ! nat j) = int g)
      \<longleftrightarrow> (i < n \<and> present (pt ! nat i) \<and> PFN (pt ! nat i) = int g) \<or>
          (\<exists>j. i + 1 \<le> j \<and> j < n \<and> present (pt ! nat j) \<and> PFN (pt ! nat j) = int g)"
      by (rule ex_from_split)
    show ?thesis
    proof (cases "present (pt ! nat i)")
      case False
      then have "release_frames pt occ (i + 1) n = Some occ'"
        using "1.prems"(1) True rng by (subst (asm) release_frames.simps) simp
      then have IH: "length occ' = length occ \<and>
        (\<forall>g < length occ. occ' ! g \<longleftrightarrow>
          occ ! g \<and> \<not> (\<exists>j. i + 1 \<le> j \<and> j < n \<and> present (pt ! nat j) \<and> PFN (pt ! nat j) = int g))"
        using "1.IH"(2) [OF True rng False] "1.prems"(2) by simp
      show ?thesis
        unfolding split using IH False by simp
    next
      case pres: True
      let ?f = "PFN (pt ! nat i)"
      have frng: "\<not> (?f < 0 \<or> int (length occ) \<le> ?f)"
        using "1.prems"(1) True rng pres
        by (subst (asm) release_frames.simps) (auto split: if_splits)
      have "release_frames pt (occ[nat ?f := False]) (i + 1) n = Some occ'"
        using "1.prems"(1) True rng pres frng by (subst (asm) release_frames.simps) simp
      then have IH: "length occ' = length occ \<and>
        (\<forall>g < length occ. occ' ! g \<longleftrightarrow>
          (occ[nat ?f := False]) ! g \<and>
          \<not> (\<exists>j. i + 1 \<le> j \<and> j < n \<and> present (pt ! nat j) \<and> PFN (pt ! nat j) = int g))"
        using "1.IH"(1) [OF True rng pres frng] "1.prems"(2) by simp
      have upd: "\<And>g. g < length occ \<Longrightarrow> (occ[nat ?f := False]) ! g = (occ ! g \<and> ?f \<noteq> int g)"
        using frng by (auto simp: nth_list_update split: if_splits)
      show ?thesis
      proof (intro conjI allI impI)
        show "length occ' = length occ" using IH by simp
        fix g assume g: "g < length occ"
        have "occ' ! g \<longleftrightarrow> (occ ! g \<and> ?f \<noteq> int g) \<and>
          \<not> (\<exists>j. i + 1 \<le> j \<and> j < n \<and> present (pt ! nat j) \<and> PFN (pt ! nat j) = int g)"
          using IH g upd by simp
        also have "\<dots> \<longleftrightarrow> occ ! g \<and>
          \<not> (\<exists>j. i \<le> j \<and> j < n \<and> present (pt ! nat j) \<and> PFN (pt ! nat j) = int g)"
          unfolding split using pres True by auto
        finally show "occ' ! g \<longleftrightarrow> occ ! g \<and>
          \<not> (\<exists>j. i \<le> j \<and> j < n \<and> present (pt ! nat j) \<and> PFN (pt ! nat j) = int g)" .
      qed
    qed
  qed
qed

lemma release_frames_defined:
  "0 \<le> i \<Longrightarrow> n \<le> int (length pt) \<Longrightarrow>
   (\<forall>j. i \<le> j \<and> j < n \<and> present (pt ! nat j) \<longrightarrow>
      0 \<le> PFN (pt ! nat j) \<and> PFN (pt ! nat j) < int (length occ)) \<Longrightarrow>
   \<exists>occ'. release_frames pt occ i n = Some occ'"
proof (induction pt occ i n rule: release_frames.induct)
  case (1 pt occ i n)
  show ?case
  proof (cases "i < n")
    case False
    then show ?thesis by (subst release_frames.simps) simp
  next
    case True
    then have rng: "\<not> (i < 0 \<or> int (length pt) \<le> i)" using "1.prems" by simp
    show ?thesis
    proof (cases "present (pt ! nat i)")
      case False
      have "\<exists>occ'. release_frames pt occ (i + 1) n = Some occ'"
        using "1.IH"(2) [OF True rng False] "1.prems" by simp
      then show ?thesis using True rng False by (subst release_frames.simps) simp
    next
      case pres: True
      let ?f = "PFN (pt ! nat i)"
      have frng: "\<not> (?f < 0 \<or> int (length occ) \<le> ?f)"
        using "1.prems"(3) True pres by auto
      have "\<exists>occ'. release_frames pt (occ[nat ?f := False]) (i + 1) n = Some occ'"
        using "1.IH"(1) [OF True rng pres frng] "1.prems" by simp
      then show ?thesis using True rng pres frng by (subst release_frames.simps) simp
    qed
  qed
qed

section \<open>The invariant holds after every sequence of calls\<close>

lemma slots_ok_running:
  assumes "slots_ok c k" and "p < length (mm k)" and "running k ! p"
  shows "0 < size_mm (mm k ! p)" and "size_mm (mm k ! p) \<le> VIRTUAL_SPACE_SIZE c"
    and "page_table (mm k ! p) \<noteq> None"
    and "int (table_len (mm k ! p)) = (size_mm (mm k ! p) - 1) sdiv PAGE_SIZE c + 1"
proof -
  have "if running k ! p then
          0 < size_mm (mm k ! p) \<and> size_mm (mm k ! p) \<le> VIRTUAL_SPACE_SIZE c \<and>
          page_table (mm k ! p) \<noteq> None \<and>
          int (table_len (mm k ! p)) = (size_mm (mm k ! p) - 1) sdiv PAGE_SIZE c + 1
        else size_mm (mm k ! p) = 0 \<and> page_table (mm k ! p) = None"
    using assms(1,2) unfolding slots_ok_def by blast
  then show "0 < size_mm (mm k ! p)" and "size_mm (mm k ! p) \<le> VIRTUAL_SPACE_SIZE c"
    and "page_table (mm k ! p) \<noteq> None"
    and "int (table_len (mm k ! p)) = (size_mm (mm k ! p) - 1) sdiv PAGE_SIZE c + 1"
    using assms(3) by simp_all
qed

lemma slots_ok_free:
  assumes "slots_ok c k" and "p < length (mm k)" and "\<not> running k ! p"
  shows "size_mm (mm k ! p) = 0" and "page_table (mm k ! p) = None"
proof -
  have "if running k ! p then
          0 < size_mm (mm k ! p) \<and> size_mm (mm k ! p) \<le> VIRTUAL_SPACE_SIZE c \<and>
          page_table (mm k ! p) \<noteq> None \<and>
          int (table_len (mm k ! p)) = (size_mm (mm k ! p) - 1) sdiv PAGE_SIZE c + 1
        else size_mm (mm k ! p) = 0 \<and> page_table (mm k ! p) = None"
    using assms(1,2) unfolding slots_ok_def by blast
  then show "size_mm (mm k ! p) = 0" and "page_table (mm k ! p) = None"
    using assms(3) by simp_all
qed

lemma proc_exit_vm_cases:
  assumes "proc_exit_vm c k pid = Some (r, k')"
  shows "0 \<le> pid \<and> pid < int (length (running k))"
    and "\<not> running k ! nat pid \<Longrightarrow> r = - 1 \<and> k' = k"
    and "running k ! nat pid \<Longrightarrow>
           r = 0 \<and> pid < int (length (mm k)) \<and> PAGE_SIZE c \<noteq> 0 \<and>
           (\<exists>pt occ'. page_table (mm k ! nat pid) = Some pt \<and>
              release_frames (ptes pt) (occupied_pages k) 0
                ((size_mm (mm k ! nat pid) - 1) sdiv PAGE_SIZE c + 1) = Some occ' \<and>
              k' = k\<lparr>occupied_pages := occ',
                     mm := (mm k)[nat pid := \<lparr>size_mm = 0, page_table = None\<rparr>],
                     allocated_pages := allocated_pages k
                        - ((size_mm (mm k ! nat pid) - 1) sdiv PAGE_SIZE c + 1),
                     running := (running k)[nat pid := False]\<rparr>)"
  using assms
  by (auto simp: proc_exit_vm_def Let_def split: if_splits option.splits)

lemma sum_list_table_len_update:
  assumes "p < length ms"
  shows "sum_list (map table_len (ms[p := m])) + table_len (ms ! p)
           = sum_list (map table_len ms) + table_len m"
proof -
  have "table_len (ms ! p) \<le> sum_list (map table_len ms)"
    using elem_le_sum_list [of p "map table_len ms"] assms by simp
  then show ?thesis
    using sum_list_update [of p "map table_len ms" "table_len m"] assms
    by (simp add: map_update)
qed

lemma kernel_inv_create:
  assumes cfg: "config_ok c" and inv: "kernel_inv c k"
    and cr: "proc_create_vm c k sz = Some (r, k')"
  shows "kernel_inv c k'"
proof (cases "r = - 1")
  case True
  then show ?thesis using proc_create_vm_cases(2) [OF cr] inv by simp
next
  case False
  define n where "n = (sz - 1) sdiv PAGE_SIZE c + 1"
  define new where "new = \<lparr>size_mm = sz, page_table = Some \<lparr>ptes =
      replicate (nat n) \<lparr>PFN = - 1, present = False\<rparr>\<rparr>\<rparr>"
  have sh: "shape_ok c k" and sl: "slots_ok c k" and fr: "frames_ok c k" and pg: "pages_ok c k"
    using inv by (simp_all add: kernel_inv_def)
  have P: "0 < PAGE_SIZE c" using cfg by (simp add: config_ok_def)
  have ok: "0 < sz" "sz \<le> VIRTUAL_SPACE_SIZE c"
    "allocated_pages k + n \<le> KERNEL_SPACE_SIZE c sdiv PAGE_SIZE c"
    using proc_create_vm_cases(1) [OF cr] False by (auto simp: n_def)
  have n: "1 \<le> n" using ok(1) P sdiv_pos_nonneg [of "sz - 1" "PAGE_SIZE c"] by (simp add: n_def)
  have r: "nat r < length (running k)" "nat r < length (mm k)" "\<not> running k ! nat r"
    using proc_create_vm_cases(3) [OF cr False] by (simp_all add: nat_index)
  have k': "k' = k\<lparr>allocated_pages := allocated_pages k + n,
      running := (running k)[nat r := True], mm := (mm k)[nat r := new]\<rparr>"
    using proc_create_vm_cases(3) [OF cr False] by (simp add: n_def new_def)
  have tl: "table_len new = nat n" by (simp add: new_def table_len_def)
  have old0: "table_len (mm k ! nat r) = 0"
    using slots_ok_free(2) [OF sl r(2,3)] by (simp add: table_len_def)
  have mt: "\<And>p j g. maps_to k' p j g \<longleftrightarrow> maps_to k p j g"
  proof -
    fix p j g
    show "maps_to k' p j g \<longleftrightarrow> maps_to k p j g"
    proof (cases "p = nat r")
      case True
      then show ?thesis using r by (auto simp: maps_to_def k' new_def)
    next
      case False
      then show ?thesis by (auto simp: maps_to_def k')
    qed
  qed
  have "shape_ok c k'" using sh by (simp add: shape_ok_def k')
  moreover have "slots_ok c k'"
    unfolding slots_ok_def
  proof (intro allI impI)
    fix p assume "p < length (mm k')"
    then have p: "p < length (mm k)" by (simp add: k')
    show "if running k' ! p then
          0 < size_mm (mm k' ! p) \<and> size_mm (mm k' ! p) \<le> VIRTUAL_SPACE_SIZE c \<and>
          page_table (mm k' ! p) \<noteq> None \<and>
          int (table_len (mm k' ! p)) = (size_mm (mm k' ! p) - 1) sdiv PAGE_SIZE c + 1
        else size_mm (mm k' ! p) = 0 \<and> page_table (mm k' ! p) = None"
    proof (cases "p = nat r")
      case True
      have "mm k' ! p = new" "running k' ! p" using True r by (simp_all add: k')
      then show ?thesis using ok n tl by (simp add: new_def n_def)
    next
      case False
      then have "mm k' ! p = mm k ! p" "running k' ! p = running k ! p" by (simp_all add: k')
      then show ?thesis using sl p by (simp add: slots_ok_def)
    qed
  qed
  moreover have "frames_ok c k'"
    using fr unfolding frames_ok_def mt by (simp add: k')
  moreover have "pages_ok c k'"
  proof -
    have "sum_list (map table_len (mm k')) = sum_list (map table_len (mm k)) + nat n"
      using sum_list_table_len_update [OF r(2), of new] old0 tl by (simp add: k')
    then show ?thesis using pg ok(3) n by (simp add: pages_ok_def k')
  qed
  ultimately show ?thesis by (simp add: kernel_inv_def)
qed

lemma kernel_inv_exit:
  assumes inv: "kernel_inv c k" and ex: "proc_exit_vm c k pid = Some (r, k')"
  shows "kernel_inv c k'"
proof (cases "running k ! nat pid")
  case False
  then show ?thesis using proc_exit_vm_cases(2) [OF ex] inv by simp
next
  case True
  define n where "n = (size_mm (mm k ! nat pid) - 1) sdiv PAGE_SIZE c + 1"
  have sh: "shape_ok c k" and sl: "slots_ok c k" and fr: "frames_ok c k" and pg: "pages_ok c k"
    using inv by (simp_all add: kernel_inv_def)
  obtain pt occ' where pt: "page_table (mm k ! nat pid) = Some pt"
    and rel: "release_frames (ptes pt) (occupied_pages k) 0 n = Some occ'"
    and k': "k' = k\<lparr>occupied_pages := occ',
                     mm := (mm k)[nat pid := \<lparr>size_mm = 0, page_table = None\<rparr>],
                     allocated_pages := allocated_pages k - n,
                     running := (running k)[nat pid := False]\<rparr>"
    using proc_exit_vm_cases(3) [OF ex True] unfolding n_def by blast
  have p0: "nat pid < length (running k)" "nat pid < length (mm k)"
    using proc_exit_vm_cases(1) [OF ex] proc_exit_vm_cases(3) [OF ex True]
    by (simp_all add: nat_index)
  have tl: "table_len (mm k ! nat pid) = length (ptes pt)"
    using pt by (simp add: table_len_def)
  have len: "int (length (ptes pt)) = n"
    using slots_ok_running(4) [OF sl p0(2) True] tl by (simp add: n_def)
  note rf = release_frames_result [OF rel]
  have occ': "length occ' = length (occupied_pages k)"
    "\<And>g. g < length (occupied_pages k) \<Longrightarrow> occ' ! g \<longleftrightarrow>
        occupied_pages k ! g \<and> \<not> (\<exists>j. maps_to k (nat pid) j (int g))"
  proof -
    show "length occ' = length (occupied_pages k)" using rf by simp
    fix g assume g: "g < length (occupied_pages k)"
    have "(\<exists>j. 0 \<le> j \<and> j < n \<and> present (ptes pt ! nat j) \<and> PFN (ptes pt ! nat j) = int g)
      \<longleftrightarrow> (\<exists>j. maps_to k (nat pid) j (int g))"
    proof
      assume "\<exists>j. 0 \<le> j \<and> j < n \<and> present (ptes pt ! nat j) \<and> PFN (ptes pt ! nat j) = int g"
      then obtain j where j: "0 \<le> j" "j < n" "present (ptes pt ! nat j)"
        "PFN (ptes pt ! nat j) = int g" by blast
      then have "maps_to k (nat pid) (nat j) (int g)"
        using p0 True pt len by (simp add: maps_to_def nat_index)
      then show "\<exists>j. maps_to k (nat pid) j (int g)" by blast
    next
      assume "\<exists>j. maps_to k (nat pid) j (int g)"
      then obtain j where "maps_to k (nat pid) j (int g)" by blast
      then have "0 \<le> int j \<and> int j < n \<and> present (ptes pt ! nat (int j)) \<and>
        PFN (ptes pt ! nat (int j)) = int g"
        using pt len by (auto simp: maps_to_def)
      then show "\<exists>j. 0 \<le> j \<and> j < n \<and> present (ptes pt ! nat j) \<and> PFN (ptes pt ! nat j) = int g"
        by blast
    qed
    moreover have "occ' ! g \<longleftrightarrow> occupied_pages k ! g \<and>
      \<not> (\<exists>j. 0 \<le> j \<and> j < n \<and> present (ptes pt ! nat j) \<and> PFN (ptes pt ! nat j) = int g)"
      using rf g by blast
    ultimately show "occ' ! g \<longleftrightarrow> occupied_pages k ! g \<and> \<not> (\<exists>j. maps_to k (nat pid) j (int g))"
      by blast
  qed
  have mt: "\<And>p j g. maps_to k' p j g \<longleftrightarrow> p \<noteq> nat pid \<and> maps_to k p j g"
  proof -
    fix p j g
    show "maps_to k' p j g \<longleftrightarrow> p \<noteq> nat pid \<and> maps_to k p j g"
      using p0 by (cases "p = nat pid") (auto simp: maps_to_def k')
  qed
  have F: "length (occupied_pages k) = nat (KERNEL_SPACE_SIZE c sdiv PAGE_SIZE c)"
    using sh by (simp add: shape_ok_def)
  have "shape_ok c k'" using sh occ'(1) by (simp add: shape_ok_def k')
  moreover have "slots_ok c k'"
    unfolding slots_ok_def
  proof (intro allI impI)
    fix p assume "p < length (mm k')"
    then have p: "p < length (mm k)" by (simp add: k')
    show "if running k' ! p then
          0 < size_mm (mm k' ! p) \<and> size_mm (mm k' ! p) \<le> VIRTUAL_SPACE_SIZE c \<and>
          page_table (mm k' ! p) \<noteq> None \<and>
          int (table_len (mm k' ! p)) = (size_mm (mm k' ! p) - 1) sdiv PAGE_SIZE c + 1
        else size_mm (mm k' ! p) = 0 \<and> page_table (mm k' ! p) = None"
    proof (cases "p = nat pid")
      case True
      then show ?thesis using p0 by (simp add: k')
    next
      case False
      then have "mm k' ! p = mm k ! p" "running k' ! p = running k ! p" by (simp_all add: k')
      then show ?thesis using sl p by (simp add: slots_ok_def)
    qed
  qed
  moreover have "frames_ok c k'"
  proof -
    have o: "occupied_pages k' = occ'" by (simp add: k')
    have g: "\<And>g. 0 \<le> g \<Longrightarrow> g < KERNEL_SPACE_SIZE c sdiv PAGE_SIZE c \<Longrightarrow>
        occ' ! nat g \<longleftrightarrow> occupied_pages k ! nat g \<and> \<not> (\<exists>j. maps_to k (nat pid) j g)"
      using occ'(2) F by (simp add: nat_index)
    have 1: "\<forall>p i q j g. maps_to k' p i g \<and> maps_to k' q j g \<longrightarrow> p = q \<and> i = j"
      using fr unfolding frames_ok_def mt by blast
    have 2: "\<forall>p i g. maps_to k' p i g \<longrightarrow>
        0 \<le> g \<and> g < KERNEL_SPACE_SIZE c sdiv PAGE_SIZE c \<and> occupied_pages k' ! nat g"
    proof (intro allI impI)
      fix p i g assume "maps_to k' p i g"
      then have a: "p \<noteq> nat pid" "maps_to k p i g" by (simp_all add: mt)
      then have b: "0 \<le> g" "g < KERNEL_SPACE_SIZE c sdiv PAGE_SIZE c" "occupied_pages k ! nat g"
        using fr unfolding frames_ok_def by blast+
      have "\<not> (\<exists>j. maps_to k (nat pid) j g)"
        using fr a unfolding frames_ok_def by blast
      then have "occ' ! nat g" using g [OF b(1,2)] b(3) by blast
      then show "0 \<le> g \<and> g < KERNEL_SPACE_SIZE c sdiv PAGE_SIZE c \<and> occupied_pages k' ! nat g"
        using b o by simp
    qed
    have 3: "\<forall>g. 0 \<le> g \<and> g < KERNEL_SPACE_SIZE c sdiv PAGE_SIZE c \<and> occupied_pages k' ! nat g \<longrightarrow>
        (\<exists>p i. maps_to k' p i g)"
    proof (intro allI impI)
      fix g assume a: "0 \<le> g \<and> g < KERNEL_SPACE_SIZE c sdiv PAGE_SIZE c \<and> occupied_pages k' ! nat g"
      then have "occ' ! nat g" using o by simp
      then have b: "occupied_pages k ! nat g" "\<not> (\<exists>j. maps_to k (nat pid) j g)"
        using g [of g] a by blast+
      then obtain p i where "maps_to k p i g"
        using fr a unfolding frames_ok_def by blast
      then have "maps_to k' p i g" using b(2) by (auto simp: mt)
      then show "\<exists>p i. maps_to k' p i g" by blast
    qed
    show ?thesis unfolding frames_ok_def using 1 2 3 by blast
  qed
  moreover have "pages_ok c k'"
  proof -
    have "sum_list (map table_len (mm k')) + length (ptes pt) = sum_list (map table_len (mm k))"
      using sum_list_table_len_update [OF p0(2), of "\<lparr>size_mm = 0, page_table = None\<rparr>"] tl
      by (simp add: k' table_len_def)
    then have "int (sum_list (map table_len (mm k'))) = int (sum_list (map table_len (mm k))) - n"
      using len by linarith
    moreover have "0 \<le> n" using len by linarith
    ultimately show ?thesis using pg by (simp add: pages_ok_def k')
  qed
  ultimately show ?thesis by (simp add: kernel_inv_def)
qed

lemma kernel_inv_step:
  assumes "config_ok c" and "kernel_inv c k" and "step c k x = Some k'"
  shows "kernel_inv c k'"
proof (cases x)
  case (ProcCreateVM sz)
  then show ?thesis using assms by (auto dest: kernel_inv_create)
next
  case (ProcExitVM pid)
  then show ?thesis using assms by (auto dest: kernel_inv_exit)
next
  case (VmRead pid addr sz buf)
  then show ?thesis using assms by (auto dest: kernel_inv_vm_read)
next
  case (VmWrite pid addr sz buf)
  then show ?thesis using assms by (auto dest: kernel_inv_vm_write)
qed

lemma kernel_inv_run:
  assumes "config_ok c"
  shows "kernel_inv c k \<Longrightarrow> run c k xs = Some k' \<Longrightarrow> kernel_inv c k'"
proof (induction xs arbitrary: k)
  case Nil
  then show ?case by simp
next
  case (Cons x xs)
  then obtain k1 where s: "step c k x = Some k1" and r: "run c k1 xs = Some k'"
    by (auto split: option.splits)
  show ?case using Cons.IH [OF kernel_inv_step [OF assms Cons.prems(1) s] r] .
qed

section \<open>Reachable states\<close>

lemma reachable_inv:
  assumes "config_ok c" and "run c (init_kernel c) calls = Some k"
  shows "kernel_inv c k"
  using kernel_inv_run [OF assms(1) kernel_inv_init [OF assms(1)] assms(2)] .

lemma small_config_ok: "config_ok small_config"
  by (simp add: config_ok_def small_config_def INT_MAX_def signed_divide_int_def)

text \<open>
  Claim C3. In every state reached from the initial kernel by a sequence of
  \<^verbatim>\<open>proc_create_vm\<close>, \<^verbatim>\<open>proc_exit_vm\<close>, \<^verbatim>\<open>vm_read\<close> and \<^verbatim>\<open>vm_write\<close> calls, no frame
  number is held by two present page-table entries of running processes, and a frame
  of the kernel is marked occupied iff exactly one such entry holds its number.
\<close>

theorem frame_exclusivity:
  assumes "config_ok c" and "run c (init_kernel c) calls = Some k"
  shows "(\<forall>p i q j f. maps_to k p i f \<and> maps_to k q j f \<longrightarrow> p = q \<and> i = j) \<and>
         (\<forall>f. 0 \<le> f \<and> f < KERNEL_SPACE_SIZE c sdiv PAGE_SIZE c \<longrightarrow>
            (occupied_pages k ! nat f \<longleftrightarrow> (\<exists>!pi. maps_to k (fst pi) (snd pi) f)))"
proof -
  have fr: "frames_ok c k"
    using reachable_inv [OF assms] by (simp add: kernel_inv_def)
  have 1: "\<forall>p i q j f. maps_to k p i f \<and> maps_to k q j f \<longrightarrow> p = q \<and> i = j"
    using fr unfolding frames_ok_def by blast
  have 2: "\<And>p i f. maps_to k p i f \<Longrightarrow> occupied_pages k ! nat f"
    using fr unfolding frames_ok_def by blast
  have 3: "\<And>f. 0 \<le> f \<Longrightarrow> f < KERNEL_SPACE_SIZE c sdiv PAGE_SIZE c \<Longrightarrow>
      occupied_pages k ! nat f \<Longrightarrow> \<exists>p i. maps_to k p i f"
    using fr unfolding frames_ok_def by blast
  have "\<And>f. 0 \<le> f \<Longrightarrow> f < KERNEL_SPACE_SIZE c sdiv PAGE_SIZE c \<Longrightarrow>
      occupied_pages k ! nat f \<longleftrightarrow> (\<exists>!pi. maps_to k (fst pi) (snd pi) f)"
  proof
    fix f assume f: "0 \<le> f" "f < KERNEL_SPACE_SIZE c sdiv PAGE_SIZE c" "occupied_pages k ! nat f"
    obtain p i where m: "maps_to k p i f" using 3 [OF f] by blast
    show "\<exists>!pi. maps_to k (fst pi) (snd pi) f"
    proof (rule ex1I [of _ "(p, i)"])
      show "maps_to k (fst (p, i)) (snd (p, i)) f" using m by simp
      fix pi assume "maps_to k (fst pi) (snd pi) f"
      then have "fst pi = p \<and> snd pi = i" using 1 m by blast
      then show "pi = (p, i)" by (simp add: prod_eq_iff)
    qed
  next
    fix f assume "\<exists>!pi. maps_to k (fst pi) (snd pi) f"
    then show "occupied_pages k ! nat f" using 2 by blast
  qed
  then show ?thesis using 1 by blast
qed

theorem frame_exclusivity_witness:
  "config_ok small_config \<and>
   run small_config (init_kernel small_config)
     [ProcCreateVM 8, VmWrite 0 0 8 [1, 2, 3, 4, 5, 6, 7, 8]] = Some one_proc_written \<and>
   occupied_pages one_proc_written ! nat 1 \<and>
   maps_to one_proc_written 0 1 1 \<and>
   (\<exists>!pi. maps_to one_proc_written (fst pi) (snd pi) 1) \<and>
   \<not> occupied_pages one_proc_written ! nat 2 \<and>
   \<not> (\<exists>!pi. maps_to one_proc_written (fst pi) (snd pi) 2)"
proof -
  have r: "run small_config (init_kernel small_config)
     [ProcCreateVM 8, VmWrite 0 0 8 [1, 2, 3, 4, 5, 6, 7, 8]] = Some one_proc_written"
    by (simp add: eval_defs one_proc_written_def eval_nat_numeral)
  have o: "occupied_pages one_proc_written ! nat 1" "\<not> occupied_pages one_proc_written ! nat 2"
    by (simp_all add: one_proc_written_def eval_nat_numeral)
  have m: "maps_to one_proc_written 0 1 1"
    by (simp add: maps_to_def one_proc_written_def)
  have F: "(1::int) < KERNEL_SPACE_SIZE small_config sdiv PAGE_SIZE small_config"
    "(2::int) < KERNEL_SPACE_SIZE small_config sdiv PAGE_SIZE small_config"
    by (simp_all add: small_config_def signed_divide_int_def)
  note T = frame_exclusivity [OF small_config_ok r, THEN conjunct2, rule_format]
  have e1: "occupied_pages one_proc_written ! nat 1 \<longleftrightarrow>
      (\<exists>!pi. maps_to one_proc_written (fst pi) (snd pi) 1)"
    using T [of 1] F(1) by simp
  have e2: "occupied_pages one_proc_written ! nat 2 \<longleftrightarrow>
      (\<exists>!pi. maps_to one_proc_written (fst pi) (snd pi) 2)"
    using T [of 2] F(2) by simp
  show ?thesis
    using small_config_ok r o m e1 e2 by blast
qed

text \<open>
  Claim C4. In every state reached from the initial kernel by a sequence of calls (of
  \<^verbatim>\<open>proc_create_vm\<close> and \<^verbatim>\<open>proc_exit_vm\<close> in particular), \<^verbatim>\<open>allocated_pages\<close> is at most
  \<^verbatim>\<open>KERNEL_SPACE_SIZE / PAGE_SIZE\<close>, and \<^verbatim>\<open>proc_create_vm\<close> fails, leaving the state as it
  is, whenever \<open>ceil(size / PAGE_SIZE)\<close> more pages would exceed that bound.
\<close>

theorem admission_invariant:
  assumes "config_ok c" and "run c (init_kernel c) calls = Some k"
  shows "allocated_pages k \<le> KERNEL_SPACE_SIZE c sdiv PAGE_SIZE c \<and>
         (\<forall>sz. KERNEL_SPACE_SIZE c sdiv PAGE_SIZE c
                 < allocated_pages k + \<lceil>real_of_int sz / real_of_int (PAGE_SIZE c)\<rceil> \<longrightarrow>
               proc_create_vm c k sz = Some (- 1, k))"
proof -
  have pg: "pages_ok c k"
    using reachable_inv [OF assms] by (simp add: kernel_inv_def)
  have P: "0 < PAGE_SIZE c" and big: "KERNEL_SPACE_SIZE c sdiv PAGE_SIZE c +
      ((VIRTUAL_SPACE_SIZE c - 1) sdiv PAGE_SIZE c + 1) \<le> INT_MAX"
    using assms(1) by (simp_all add: config_ok_def)
  have a: "0 \<le> allocated_pages k" "allocated_pages k \<le> KERNEL_SPACE_SIZE c sdiv PAGE_SIZE c"
    using pg by (simp_all add: pages_ok_def)
  have "proc_create_vm c k sz = Some (- 1, k)"
    if over: "KERNEL_SPACE_SIZE c sdiv PAGE_SIZE c
                 < allocated_pages k + \<lceil>real_of_int sz / real_of_int (PAGE_SIZE c)\<rceil>" for sz
  proof (cases "0 \<ge> sz \<or> sz > VIRTUAL_SPACE_SIZE c")
    case True
    then show ?thesis by (simp add: proc_create_vm_def)
  next
    case False
    then have sz: "0 < sz" "sz \<le> VIRTUAL_SPACE_SIZE c" by simp_all
    have n: "(sz - 1) sdiv PAGE_SIZE c + 1 = \<lceil>real_of_int sz / real_of_int (PAGE_SIZE c)\<rceil>"
      using pages_ceiling [OF sz(1) P] .
    have "(sz - 1) div PAGE_SIZE c \<le> (VIRTUAL_SPACE_SIZE c - 1) div PAGE_SIZE c"
      using sz(2) P by (simp add: zdiv_mono1)
    then have le: "(sz - 1) sdiv PAGE_SIZE c \<le> (VIRTUAL_SPACE_SIZE c - 1) sdiv PAGE_SIZE c"
      using sz P by (simp add: sdiv_nonneg)
    have "0 \<le> (sz - 1) sdiv PAGE_SIZE c"
      using sz(1) P sdiv_pos_nonneg [of "sz - 1" "PAGE_SIZE c"] by simp
    then have "int_range (allocated_pages k + ((sz - 1) sdiv PAGE_SIZE c + 1))"
      using a le big by (simp add: int_range_def INT_MIN_def)
    then show ?thesis
      using False P over n by (simp add: proc_create_vm_def)
  qed
  then show ?thesis using a(2) by blast
qed

theorem admission_invariant_witness:
  "config_ok small_config \<and>
   run small_config (init_kernel small_config) [ProcCreateVM 4, ProcExitVM 0, ProcCreateVM 8]
     = Some one_proc \<and>
   allocated_pages one_proc \<le> KERNEL_SPACE_SIZE small_config sdiv PAGE_SIZE small_config \<and>
   KERNEL_SPACE_SIZE small_config sdiv PAGE_SIZE small_config
     < allocated_pages one_proc + \<lceil>real_of_int 8 / real_of_int (PAGE_SIZE small_config)\<rceil> \<and>
   proc_create_vm small_config one_proc 8 = Some (- 1, one_proc)"
proof -
  have r: "run small_config (init_kernel small_config)
      [ProcCreateVM 4, ProcExitVM 0, ProcCreateVM 8] = Some one_proc"
    by (simp add: eval_defs one_proc_def eval_nat_numeral)
  have over: "KERNEL_SPACE_SIZE small_config sdiv PAGE_SIZE small_config
     < allocated_pages one_proc + \<lceil>real_of_int 8 / real_of_int (PAGE_SIZE small_config)\<rceil>"
    by (simp add: small_config_def one_proc_def signed_divide_int_def)
  show ?thesis
    using admission_invariant [OF small_config_ok r] small_config_ok r over by simp
qed


section \<open>Teardown\<close>

text \<open>
  Claim C6. In every reachable state, \<^verbatim>\<open>proc_exit_vm\<close> of a running process succeeds:
  \<^verbatim>\<open>allocated_pages\<close> goes down by \<open>ceil(size / PAGE_SIZE)\<close> of that process, every frame a
  present entry of its table held is marked unoccupied, its size is 0, its table is
  gone and its slot is not running; after that a second \<^verbatim>\<open>proc_exit_vm\<close> and every
  \<^verbatim>\<open>vm_read\<close> and \<^verbatim>\<open>vm_write\<close> on the slot fail (with \<open>-1\<close>, the code's only failure
  value) and change nothing.
\<close>

theorem proc_exit_vm_teardown:
  assumes cfg: "config_ok c" and reach: "run c (init_kernel c) calls = Some k"
    and pid: "0 \<le> pid" "pid < MAX_PROCESS_NUM c" and run: "running k ! nat pid"
  shows "\<exists>k'. proc_exit_vm c k pid = Some (0, k') \<and>
           allocated_pages k' = allocated_pages k
             - \<lceil>real_of_int (size_mm (mm k ! nat pid)) / real_of_int (PAGE_SIZE c)\<rceil> \<and>
           (\<forall>i f. maps_to k (nat pid) i f \<longrightarrow> \<not> occupied_pages k' ! nat f) \<and>
           size_mm (mm k' ! nat pid) = 0 \<and> page_table (mm k' ! nat pid) = None \<and>
           \<not> running k' ! nat pid \<and>
           proc_exit_vm c k' pid = Some (- 1, k') \<and>
           (\<forall>addr len buf. vm_read c k' pid addr len buf = Some (- 1, k', buf) \<and>
                           vm_write c k' pid addr len buf = Some (- 1, k'))"
proof -
  have inv: "kernel_inv c k" using reachable_inv [OF cfg reach] .
  then have sh: "shape_ok c k" and sl: "slots_ok c k" and fr: "frames_ok c k"
    by (simp_all add: kernel_inv_def)
  have P: "0 < PAGE_SIZE c" using cfg by (simp add: config_ok_def)
  have p0: "nat pid < length (running k)" "nat pid < length (mm k)"
    using sh pid by (simp_all add: shape_ok_def)
  have rng: "\<not> (pid < 0 \<or> int (length (running k)) \<le> pid)" "\<not> int (length (mm k)) \<le> pid"
    using sh pid by (simp_all add: shape_ok_def)
  define n where "n = (size_mm (mm k ! nat pid) - 1) sdiv PAGE_SIZE c + 1"
  obtain pt where pt: "page_table (mm k ! nat pid) = Some pt"
    using slots_ok_running(3) [OF sl p0(2) run] by blast
  have len: "int (length (ptes pt)) = n"
    using slots_ok_running(4) [OF sl p0(2) run] pt by (simp add: n_def table_len_def)
  have nc: "n = \<lceil>real_of_int (size_mm (mm k ! nat pid)) / real_of_int (PAGE_SIZE c)\<rceil>"
    unfolding n_def using pages_ceiling [OF slots_ok_running(1) [OF sl p0(2) run] P] .
  have mp: "\<And>j. 0 \<le> j \<Longrightarrow> j < n \<Longrightarrow> present (ptes pt ! nat j) \<Longrightarrow>
      maps_to k (nat pid) (nat j) (PFN (ptes pt ! nat j))"
    using p0 run pt len by (simp add: maps_to_def nat_index)
  have F: "length (occupied_pages k) = nat (KERNEL_SPACE_SIZE c sdiv PAGE_SIZE c)"
    using sh by (simp add: shape_ok_def)
  have inr: "\<forall>j. 0 \<le> j \<and> j < n \<and> present (ptes pt ! nat j) \<longrightarrow>
      0 \<le> PFN (ptes pt ! nat j) \<and> PFN (ptes pt ! nat j) < int (length (occupied_pages k))"
  proof (intro allI impI)
    fix j assume "0 \<le> j \<and> j < n \<and> present (ptes pt ! nat j)"
    then have "maps_to k (nat pid) (nat j) (PFN (ptes pt ! nat j))" using mp by blast
    then have "0 \<le> PFN (ptes pt ! nat j) \<and>
      PFN (ptes pt ! nat j) < KERNEL_SPACE_SIZE c sdiv PAGE_SIZE c"
      using fr unfolding frames_ok_def by blast
    then show "0 \<le> PFN (ptes pt ! nat j) \<and>
      PFN (ptes pt ! nat j) < int (length (occupied_pages k))"
      using F by simp
  qed
  obtain occ' where rel: "release_frames (ptes pt) (occupied_pages k) 0 n = Some occ'"
    using release_frames_defined [of 0 n "ptes pt" "occupied_pages k"] len inr by auto
  define k' where "k' = k\<lparr>occupied_pages := occ',
      mm := (mm k)[nat pid := \<lparr>size_mm = 0, page_table = None\<rparr>],
      allocated_pages := allocated_pages k - n,
      running := (running k)[nat pid := False]\<rparr>"
  have ex: "proc_exit_vm c k pid = Some (0, k')"
    using rng run P pt rel by (simp add: proc_exit_vm_def n_def [symmetric] k'_def)
  note rf = release_frames_result [OF rel]
  have freed: "\<forall>i f. maps_to k (nat pid) i f \<longrightarrow> \<not> occupied_pages k' ! nat f"
  proof (intro allI impI)
    fix i f assume m: "maps_to k (nat pid) i f"
    then have f: "0 \<le> f" "f < KERNEL_SPACE_SIZE c sdiv PAGE_SIZE c"
      using fr unfolding frames_ok_def by blast+
    then have g: "nat f < length (occupied_pages k)" using F by simp
    have "0 \<le> int i \<and> int i < n \<and> present (ptes pt ! nat (int i)) \<and>
        PFN (ptes pt ! nat (int i)) = int (nat f)"
      using m pt len f by (auto simp: maps_to_def)
    then have "\<exists>j. 0 \<le> j \<and> j < n \<and> present (ptes pt ! nat j) \<and> PFN (ptes pt ! nat j) = int (nat f)"
      by blast
    then have "\<not> occ' ! nat f" using rf g by blast
    then show "\<not> occupied_pages k' ! nat f" by (simp add: k'_def)
  qed
  have after: "size_mm (mm k' ! nat pid) = 0" "page_table (mm k' ! nat pid) = None"
    "\<not> running k' ! nat pid" "length (running k') = length (running k)"
    "length (mm k') = length (mm k)"
    using p0 by (simp_all add: k'_def)
  have again: "proc_exit_vm c k' pid = Some (- 1, k')"
    using rng after by (simp add: proc_exit_vm_def)
  have rw: "\<And>addr len buf. vm_read c k' pid addr len buf = Some (- 1, k', buf) \<and>
      vm_write c k' pid addr len buf = Some (- 1, k')"
    using rng after by (auto simp: vm_read_def vm_write_def)
  have "allocated_pages k' = allocated_pages k
      - \<lceil>real_of_int (size_mm (mm k ! nat pid)) / real_of_int (PAGE_SIZE c)\<rceil>"
    using nc by (simp add: k'_def)
  then show ?thesis using ex freed after(1-3) again rw by blast
qed

theorem proc_exit_vm_teardown_witness:
  "config_ok small_config \<and>
   run small_config (init_kernel small_config)
     [ProcCreateVM 8, VmWrite 0 0 8 [1, 2, 3, 4, 5, 6, 7, 8]] = Some one_proc_written \<and>
   (0::int) \<le> 0 \<and> 0 < MAX_PROCESS_NUM small_config \<and> running one_proc_written ! nat 0 \<and>
   proc_exit_vm small_config one_proc_written 0 =
     Some (0, one_proc_written\<lparr>occupied_pages := [False, False, False],
       mm := [free_slot, free_slot], allocated_pages := 0, running := [False, False]\<rparr>) \<and>
   allocated_pages one_proc_written
     - \<lceil>real_of_int (size_mm (mm one_proc_written ! nat 0))
         / real_of_int (PAGE_SIZE small_config)\<rceil> = 0 \<and>
   maps_to one_proc_written (nat 0) 1 1"
proof -
  have r: "run small_config (init_kernel small_config)
     [ProcCreateVM 8, VmWrite 0 0 8 [1, 2, 3, 4, 5, 6, 7, 8]] = Some one_proc_written"
    by (simp add: eval_defs one_proc_written_def eval_nat_numeral)
  have p: "(0::int) \<le> 0" "0 < MAX_PROCESS_NUM small_config" "running one_proc_written ! nat 0"
    by (simp_all add: small_config_def one_proc_written_def)
  have e: "proc_exit_vm small_config one_proc_written 0 =
     Some (0, one_proc_written\<lparr>occupied_pages := [False, False, False],
       mm := [free_slot, free_slot], allocated_pages := 0, running := [False, False]\<rparr>)"
    by (simp add: eval_defs one_proc_written_def eval_nat_numeral)
  have m: "maps_to one_proc_written (nat 0) 1 1"
    by (simp add: maps_to_def one_proc_written_def)
  have a: "allocated_pages one_proc_written
     - \<lceil>real_of_int (size_mm (mm one_proc_written ! nat 0))
         / real_of_int (PAGE_SIZE small_config)\<rceil> = 0"
    by (simp add: one_proc_written_def small_config_def free_slot_def)
  show ?thesis
    using proc_exit_vm_teardown [OF small_config_ok r p] small_config_ok r p e m a by simp
qed

section \<open>First fit is complete; mappings are never undone\<close>

lemma first_fit_lowest:
  assumes len: "KERNEL_SPACE_SIZE c sdiv PAGE_SIZE c \<le> int (length occ)"
    and f: "0 \<le> f" "f < KERNEL_SPACE_SIZE c sdiv PAGE_SIZE c" "\<not> occ ! nat f"
    and low: "\<forall>g. 0 \<le> g \<and> g < f \<longrightarrow> occ ! nat g"
  shows "first_fit c occ 0 = Some (f, occ[nat f := True])"
proof -
  obtain f' occ' where ff: "first_fit c occ 0 = Some (f', occ')"
    using first_fit_defined [of 0 c occ] len by auto
  note r = first_fit_result [OF ff]
  have ne: "f' \<noteq> - 1" using r f by auto
  then have r': "0 \<le> f'" "f' < KERNEL_SPACE_SIZE c sdiv PAGE_SIZE c" "\<not> occ ! nat f'"
    "occ' = occ[nat f' := True]" "\<forall>g. 0 \<le> g \<and> g < f' \<longrightarrow> occ ! nat g"
    using r by simp_all
  have "\<not> f' < f" using low r'(1,3) by blast
  moreover have "\<not> f < f'" using r'(5) f(1,3) by blast
  ultimately have "f' = f" by simp
  then show ?thesis using ff r'(4) by simp
qed

lemma first_fit_full:
  assumes len: "KERNEL_SPACE_SIZE c sdiv PAGE_SIZE c \<le> int (length occ)"
    and full: "\<forall>g. 0 \<le> g \<and> g < KERNEL_SPACE_SIZE c sdiv PAGE_SIZE c \<longrightarrow> occ ! nat g"
  shows "first_fit c occ 0 = Some (- 1, occ)"
proof -
  obtain f' occ' where ff: "first_fit c occ 0 = Some (f', occ')"
    using first_fit_defined [of 0 c occ] len by auto
  note r = first_fit_result [OF ff]
  have "f' = - 1" using r full by (auto split: if_splits)
  then show ?thesis using ff r by simp
qed

lemma get_pte_set_pte:
  assumes "get_pte k pid j = Some e0"
  shows "get_pte (set_pte k pid j e') pid i = (if i = j then Some e' else get_pte k pid i)"
proof -
  obtain pt where pt: "0 \<le> pid" "nat pid < length (mm k)" "0 \<le> j"
    "page_table (mm k ! nat pid) = Some pt" "nat j < length (ptes pt)"
    using get_pteD [OF assms] by blast
  have ij: "0 \<le> i \<Longrightarrow> nat i = nat j \<longleftrightarrow> i = j" using pt(3) by auto
  show ?thesis
    using pt ij by (auto simp: get_pte_def set_pte_def nth_list_update)
qed

lemma get_pte_occupied [simp]: "get_pte (k\<lparr>occupied_pages := occ\<rparr>) = get_pte k"
  by (simp add: get_pte_def fun_eq_iff)

lemma get_pte_space [simp]: "get_pte (k\<lparr>space := sp\<rparr>) = get_pte k"
  by (simp add: get_pte_def fun_eq_iff)

lemma occupied_set_pte [simp]: "occupied_pages (set_pte k pid i e) = occupied_pages k"
  by (simp add: set_pte_def)

text \<open>The mapping block never unmaps a page and never frees a frame.\<close>

lemma map_page_keeps_present:
  assumes "map_page c k pid j = Some (ok, k')"
    and "get_pte k pid i = Some e" and "present e"
  shows "get_pte k' pid i = Some e"
  using assms(1)
proof (cases rule: map_page_cases)
  case (mapped e0 f)
  have "i \<noteq> j" using mapped(1,2) assms(2,3) by auto
  then show ?thesis
    using get_pte_set_pte [of "k\<lparr>occupied_pages := (occupied_pages k)[nat f := True]\<rparr>" pid j e0]
      mapped(1,9) assms(2) by simp
qed (use assms in simp_all)

lemma map_page_keeps_full:
  assumes "map_page c k pid j = Some (ok, k')"
    and "\<forall>g. 0 \<le> g \<and> g < n \<longrightarrow> occupied_pages k ! nat g"
  shows "\<forall>g. 0 \<le> g \<and> g < n \<longrightarrow> occupied_pages k' ! nat g"
  using assms(1)
proof (cases rule: map_page_cases)
  case (mapped e0 f)
  have "occupied_pages k' = (occupied_pages k)[nat f := True]"
    using mapped(9) by simp
  moreover have "nat f < length (occupied_pages k)" using mapped(4,6) by simp
  ultimately show ?thesis using assms(2) by (simp add: nth_list_update)
qed (use assms in simp_all)

lemma map_page_mapped:
  assumes "map_page c k pid i = Some (True, k')"
  shows "\<exists>e. get_pte k' pid i = Some e \<and> present e"
  using assms
proof (cases rule: map_page_cases)
  case (mapped e0 f)
  then show ?thesis
    using get_pte_set_pte [of "k\<lparr>occupied_pages := (occupied_pages k)[nat f := True]\<rparr>" pid i e0]
    by simp
qed simp_all

section \<open>Lazy mapping: first fit, no rollback\<close>

lemma page_present_iff: "page_present k pid j \<longleftrightarrow> (\<exists>e. get_pte k pid j = Some e \<and> present e)"
  by (auto simp: page_present_def split: option.splits)

lemma page_unmapped_iff: "page_unmapped k pid j \<longleftrightarrow> (\<exists>e. get_pte k pid j = Some e \<and> \<not> present e)"
  by (auto simp: page_unmapped_def split: option.splits)

lemma frames_full_iff:
  "frames_full c k \<longleftrightarrow>
     (\<forall>g. 0 \<le> g \<and> g < KERNEL_SPACE_SIZE c sdiv PAGE_SIZE c \<longrightarrow> occupied_pages k ! nat g)"
  by (auto simp: frames_full_def)

lemma map_page_keeps_page_present:
  "page_present k pid i \<Longrightarrow> map_page c k pid j = Some (ok, k') \<Longrightarrow> page_present k' pid i"
  unfolding page_present_iff using map_page_keeps_present by blast

lemma page_present_space [simp]: "page_present (k\<lparr>space := sp\<rparr>) = page_present k"
  by (simp add: page_present_def fun_eq_iff)

lemma map_page_unmapped_full:
  assumes "page_unmapped k pid i" and "frames_full c k"
    and "KERNEL_SPACE_SIZE c sdiv PAGE_SIZE c \<le> int (length (occupied_pages k))"
  shows "map_page c k pid i = Some (False, k)"
proof -
  obtain e where e: "get_pte k pid i = Some e" "\<not> present e"
    using assms(1) by (auto simp: page_unmapped_iff)
  have "first_fit c (occupied_pages k) 0 = Some (- 1, occupied_pages k)"
    using first_fit_full [OF assms(3)] assms(2) by (simp add: frames_full_iff)
  then show ?thesis using e by (simp add: map_page_def)
qed

lemma map_page_unmapped_free:
  assumes "page_unmapped k pid i" and "lowest_free c k f"
    and "KERNEL_SPACE_SIZE c sdiv PAGE_SIZE c \<le> int (length (occupied_pages k))"
  shows "map_page c k pid i = Some (True,
           set_pte (k\<lparr>occupied_pages := (occupied_pages k)[nat f := True]\<rparr>) pid i
             \<lparr>PFN = f, present = True\<rparr>)"
proof -
  obtain e where e: "get_pte k pid i = Some e" "\<not> present e"
    using assms(1) by (auto simp: page_unmapped_iff)
  have f: "0 \<le> f" "f < KERNEL_SPACE_SIZE c sdiv PAGE_SIZE c" "\<not> occupied_pages k ! nat f"
    "\<forall>g. 0 \<le> g \<and> g < f \<longrightarrow> occupied_pages k ! nat g"
    using assms(2) by (auto simp: lowest_free_def)
  have "first_fit c (occupied_pages k) 0 = Some (f, (occupied_pages k)[nat f := True])"
    using first_fit_lowest [OF assms(3) f] .
  moreover have "f \<noteq> - 1" using f(1) by simp
  ultimately show ?thesis using e by (simp add: map_page_def)
qed

lemma map_page_stops:
  assumes "map_page c k pid i = Some (False, k')"
  shows "k' = k \<and> page_unmapped k pid i \<and> frames_full c k"
  using assms by (cases rule: map_page_cases) (auto simp: page_unmapped_iff frames_full_iff)

lemma vm_read_loop_failure:
  "vm_read_loop c pid sz start so endp eo i cur k buf = Some (- 1, k', buf') \<Longrightarrow>
     \<exists>m \<in> {i..endp}. (\<forall>j \<in> {i..<m}. page_present k' pid j) \<and>
        page_unmapped k' pid m \<and> frames_full c k'"
proof (induction c pid sz start so endp eo i cur k buf rule: vm_read_loop.induct)
  case (1 c pid sz start so endp eo i cur k buf)
  have le: "i \<le> endp"
    using "1.prems" by (subst (asm) vm_read_loop.simps) (simp split: if_splits)
  obtain ok k1 where mp: "map_page c k pid i = Some (ok, k1)"
    using "1.prems" le by (subst (asm) vm_read_loop.simps) (auto split: option.splits)
  show ?case
  proof (cases ok)
    case False
    then have "k' = k1"
      using "1.prems" le mp by (subst (asm) vm_read_loop.simps) simp
    moreover have "map_page c k pid i = Some (False, k1)" using mp False by simp
    ultimately have "page_unmapped k' pid i \<and> frames_full c k'"
      using map_page_stops [of c k pid i k1] by simp
    then show ?thesis using le by (intro bexI [of _ i]) auto
  next
    case ok: True
    obtain e b1 c1 where e: "get_pte k1 pid i = Some e"
      and rp: "read_page c (space k1) sz start so endp eo i cur (PFN e) buf = Some (b1, c1)"
      and rec: "vm_read_loop c pid sz start so endp eo (i + 1) c1 k1 b1 = Some (- 1, k', buf')"
      using "1.prems" le mp ok
      by (subst (asm) vm_read_loop.simps) (auto split: option.splits)
    have nn: "\<not> \<not> ok" using ok by simp
    obtain m where m: "m \<in> {i + 1..endp}" "\<forall>j \<in> {i + 1..<m}. page_present k' pid j"
      "page_unmapped k' pid m" "frames_full c k'"
      using "1.IH" [OF le mp refl nn e rp refl rec] by blast
    have p1: "page_present k1 pid i"
      using map_page_mapped [of c k pid i k1] mp ok by (simp add: page_present_iff)
    have "page_present k' pid i"
    proof (rule vm_read_loop_preserves [where P = "\<lambda>k. page_present k pid i", OF rec])
      show "page_present k1 pid i" by (fact p1)
      show "\<And>k j ok k'. page_present k pid i \<Longrightarrow> map_page c k pid j = Some (ok, k')
        \<Longrightarrow> page_present k' pid i"
        by (rule map_page_keeps_page_present)
    qed
    then have "\<forall>j \<in> {i..<m}. page_present k' pid j"
    proof (intro ballI)
      fix j assume i: "page_present k' pid i" and j: "j \<in> {i..<m}"
      then have "j = i \<or> j \<in> {i + 1..<m}" by auto
      then show "page_present k' pid j" using i m(2) by blast
    qed
    then show ?thesis using m by (intro bexI [of _ m]) auto
  qed
qed

lemma vm_write_loop_failure:
  "vm_write_loop c pid sz start so endp eo i cur k buf = Some (- 1, k') \<Longrightarrow>
     \<exists>m \<in> {i..endp}. (\<forall>j \<in> {i..<m}. page_present k' pid j) \<and>
        page_unmapped k' pid m \<and> frames_full c k'"
proof (induction c pid sz start so endp eo i cur k buf rule: vm_write_loop.induct)
  case (1 c pid sz start so endp eo i cur k buf)
  have le: "i \<le> endp"
    using "1.prems" by (subst (asm) vm_write_loop.simps) (simp split: if_splits)
  obtain ok k1 where mp: "map_page c k pid i = Some (ok, k1)"
    using "1.prems" le by (subst (asm) vm_write_loop.simps) (auto split: option.splits)
  show ?case
  proof (cases ok)
    case False
    then have "k' = k1"
      using "1.prems" le mp by (subst (asm) vm_write_loop.simps) simp
    moreover have "map_page c k pid i = Some (False, k1)" using mp False by simp
    ultimately have "page_unmapped k' pid i \<and> frames_full c k'"
      using map_page_stops [of c k pid i k1] by simp
    then show ?thesis using le by (intro bexI [of _ i]) auto
  next
    case ok: True
    obtain e s1 c1 where e: "get_pte k1 pid i = Some e"
      and rp: "write_page c (space k1) sz start so endp eo i cur (PFN e) buf = Some (s1, c1)"
      and rec: "vm_write_loop c pid sz start so endp eo (i + 1) c1 (k1\<lparr>space := s1\<rparr>) buf
                  = Some (- 1, k')"
      using "1.prems" le mp ok
      by (subst (asm) vm_write_loop.simps) (auto split: option.splits)
    have nn: "\<not> \<not> ok" using ok by simp
    obtain m where m: "m \<in> {i + 1..endp}" "\<forall>j \<in> {i + 1..<m}. page_present k' pid j"
      "page_unmapped k' pid m" "frames_full c k'"
      using "1.IH" [OF le mp refl nn e rp refl rec] by blast
    have p1: "page_present k1 pid i"
      using map_page_mapped [of c k pid i k1] mp ok by (simp add: page_present_iff)
    have "page_present k' pid i"
    proof (rule vm_write_loop_preserves [where P = "\<lambda>k. page_present k pid i", OF rec])
      show "page_present (k1\<lparr>space := s1\<rparr>) pid i" using p1 by simp
      show "\<And>k sp. page_present k pid i \<Longrightarrow> length sp = length (space k)
        \<Longrightarrow> page_present (k\<lparr>space := sp\<rparr>) pid i" by simp
      show "\<And>k j ok k'. page_present k pid i \<Longrightarrow> map_page c k pid j = Some (ok, k')
        \<Longrightarrow> page_present k' pid i"
        by (rule map_page_keeps_page_present)
    qed
    then have "\<forall>j \<in> {i..<m}. page_present k' pid j"
    proof (intro ballI)
      fix j assume i: "page_present k' pid i" and j: "j \<in> {i..<m}"
      then have "j = i \<or> j \<in> {i + 1..<m}" by auto
      then show "page_present k' pid j" using i m(2) by blast
    qed
    then show ?thesis using m by (intro bexI [of _ m]) auto
  qed
qed



text \<open>
  Claim C8. When the page loop of \<^verbatim>\<open>vm_read\<close> or \<^verbatim>\<open>vm_write\<close> meets an unmapped page, its
  mapping block claims the lowest-indexed unoccupied frame, marks it occupied and
  enters it in the page's entry; when no frame is unoccupied the loop returns \<open>-1\<close> at
  once, in the state it has reached. So a call on a valid range that fails leaves
  every page of the range before the failing one mapped, the failing page unmapped
  and every frame occupied: nothing mapped earlier in the call is rolled back.
\<close>

theorem lazy_mapping_first_fit_no_rollback:
  "(page_unmapped k pid i \<and> lowest_free c k f \<and>
    KERNEL_SPACE_SIZE c sdiv PAGE_SIZE c \<le> int (length (occupied_pages k)) \<longrightarrow>
      (\<exists>k1. map_page c k pid i = Some (True, k1) \<and>
            occupied_pages k1 = (occupied_pages k)[nat f := True] \<and>
            get_pte k1 pid i = Some \<lparr>PFN = f, present = True\<rparr>)) \<and>
   (page_unmapped k pid i \<and> frames_full c k \<and>
    KERNEL_SPACE_SIZE c sdiv PAGE_SIZE c \<le> int (length (occupied_pages k)) \<and> i \<le> endp \<longrightarrow>
      vm_read_loop c pid sz start so endp eo i cur k buf = Some (- 1, k, buf) \<and>
      vm_write_loop c pid sz start so endp eo i cur k buf = Some (- 1, k)) \<and>
   (vm_read c k pid addr len buf = Some (- 1, k2, out) \<and>
    0 < len \<and> 0 \<le> addr \<and> addr + len \<le> size_mm (mm k ! nat pid) \<longrightarrow>
      (\<exists>m \<in> {addr sdiv PAGE_SIZE c..(addr + len - 1) sdiv PAGE_SIZE c}.
         (\<forall>j \<in> {addr sdiv PAGE_SIZE c..<m}. page_present k2 pid j) \<and>
         page_unmapped k2 pid m \<and> frames_full c k2)) \<and>
   (vm_write c k pid addr len buf = Some (- 1, k3) \<and>
    0 < len \<and> 0 \<le> addr \<and> addr + len \<le> size_mm (mm k ! nat pid) \<longrightarrow>
      (\<exists>m \<in> {addr sdiv PAGE_SIZE c..(addr + len - 1) sdiv PAGE_SIZE c}.
         (\<forall>j \<in> {addr sdiv PAGE_SIZE c..<m}. page_present k3 pid j) \<and>
         page_unmapped k3 pid m \<and> frames_full c k3))"
proof (intro conjI impI)
  assume a: "page_unmapped k pid i \<and> lowest_free c k f \<and>
    KERNEL_SPACE_SIZE c sdiv PAGE_SIZE c \<le> int (length (occupied_pages k))"
  let ?k0 = "k\<lparr>occupied_pages := (occupied_pages k)[nat f := True]\<rparr>"
  let ?k1 = "set_pte ?k0 pid i \<lparr>PFN = f, present = True\<rparr>"
  obtain e where e: "get_pte k pid i = Some e"
    using a by (auto simp: page_unmapped_iff)
  have "map_page c k pid i = Some (True, ?k1)"
    using map_page_unmapped_free a by blast
  moreover have "occupied_pages ?k1 = (occupied_pages k)[nat f := True]" by simp
  moreover have "get_pte ?k1 pid i = Some \<lparr>PFN = f, present = True\<rparr>"
    using get_pte_set_pte [of ?k0 pid i e] e by simp
  ultimately show "\<exists>k1. map_page c k pid i = Some (True, k1) \<and>
            occupied_pages k1 = (occupied_pages k)[nat f := True] \<and>
            get_pte k1 pid i = Some \<lparr>PFN = f, present = True\<rparr>"
    by blast
next
  assume a: "page_unmapped k pid i \<and> frames_full c k \<and>
    KERNEL_SPACE_SIZE c sdiv PAGE_SIZE c \<le> int (length (occupied_pages k)) \<and> i \<le> endp"
  then have mp: "map_page c k pid i = Some (False, k)"
    using map_page_unmapped_full by blast
  show "vm_read_loop c pid sz start so endp eo i cur k buf = Some (- 1, k, buf)"
    using a mp by (subst vm_read_loop.simps) simp
  show "vm_write_loop c pid sz start so endp eo i cur k buf = Some (- 1, k)"
    using a mp by (subst vm_write_loop.simps) simp
next
  assume a: "vm_read c k pid addr len buf = Some (- 1, k2, out) \<and>
    0 < len \<and> 0 \<le> addr \<and> addr + len \<le> size_mm (mm k ! nat pid)"
  then have "vm_read_loop c pid len (addr sdiv PAGE_SIZE c) (addr smod PAGE_SIZE c)
      ((addr + len - 1) sdiv PAGE_SIZE c) ((addr + len) smod PAGE_SIZE c)
      (addr sdiv PAGE_SIZE c) 0 k buf = Some (- 1, k2, out)"
    by (simp add: vm_read_def Let_def split: if_splits)
  then show "\<exists>m \<in> {addr sdiv PAGE_SIZE c..(addr + len - 1) sdiv PAGE_SIZE c}.
         (\<forall>j \<in> {addr sdiv PAGE_SIZE c..<m}. page_present k2 pid j) \<and>
         page_unmapped k2 pid m \<and> frames_full c k2"
    by (rule vm_read_loop_failure)
next
  assume a: "vm_write c k pid addr len buf = Some (- 1, k3) \<and>
    0 < len \<and> 0 \<le> addr \<and> addr + len \<le> size_mm (mm k ! nat pid)"
  then have "vm_write_loop c pid len (addr sdiv PAGE_SIZE c) (addr smod PAGE_SIZE c)
      ((addr + len - 1) sdiv PAGE_SIZE c) ((addr + len) smod PAGE_SIZE c)
      (addr sdiv PAGE_SIZE c) 0 k buf = Some (- 1, k3)"
    by (simp add: vm_write_def Let_def split: if_splits)
  then show "\<exists>m \<in> {addr sdiv PAGE_SIZE c..(addr + len - 1) sdiv PAGE_SIZE c}.
         (\<forall>j \<in> {addr sdiv PAGE_SIZE c..<m}. page_present k3 pid j) \<and>
         page_unmapped k3 pid m \<and> frames_full c k3"
    by (rule vm_write_loop_failure)
qed


theorem lazy_mapping_first_fit_no_rollback_witness:
  "page_unmapped scarce 0 0 \<and> lowest_free small_config scarce 2 \<and>
   map_page small_config scarce 0 0 = Some (True, scarce_after) \<and>
   occupied_pages scarce_after = (occupied_pages scarce)[nat 2 := True] \<and>
   get_pte scarce_after 0 0 = Some \<lparr>PFN = 2, present = True\<rparr> \<and>
   page_unmapped scarce_after 0 1 \<and> frames_full small_config scarce_after \<and>
   vm_read_loop small_config 0 8 0 0 1 0 1 4 scarce_after (replicate 8 0)
     = Some (- 1, scarce_after, replicate 8 0) \<and>
   vm_write_loop small_config 0 8 0 0 1 0 1 4 scarce_after (replicate 8 0)
     = Some (- 1, scarce_after) \<and>
   vm_read small_config scarce 0 0 8 (replicate 8 0) = Some (- 1, scarce_after, replicate 8 0) \<and>
   vm_write small_config scarce 0 0 8 (replicate 8 0) = Some (- 1, scarce_after) \<and>
   page_present scarce_after 0 0"
proof -
  have two: "{0..<2::int} = {0, 1}" by auto
  have three: "{0..<3::int} = {0, 1, 2}" by auto
  have F: "KERNEL_SPACE_SIZE small_config sdiv PAGE_SIZE small_config = 3"
    by (simp add: small_config_def signed_divide_int_def)
  have a1: "page_unmapped scarce 0 0"
    by (simp add: page_unmapped_def get_pte_def scarce_def unmapped_def)
  have a2: "lowest_free small_config scarce 2"
    unfolding lowest_free_def F two by (simp add: scarce_def eval_nat_numeral)
  have a3: "KERNEL_SPACE_SIZE small_config sdiv PAGE_SIZE small_config
      \<le> int (length (occupied_pages scarce))"
    unfolding F by (simp add: scarce_def)
  have w1: "map_page small_config scarce 0 0 = Some (True, scarce_after)"
    by (simp add: eval_defs scarce_def scarce_after_def eval_nat_numeral)
  have b1: "page_unmapped scarce_after 0 1"
    by (simp add: page_unmapped_def get_pte_def scarce_after_def unmapped_def)
  have b2: "frames_full small_config scarce_after"
    unfolding frames_full_def F three by (simp add: scarce_after_def eval_nat_numeral)
  have b3: "KERNEL_SPACE_SIZE small_config sdiv PAGE_SIZE small_config
      \<le> int (length (occupied_pages scarce_after))"
    unfolding F by (simp add: scarce_after_def)
  have r: "vm_read small_config scarce 0 0 8 (replicate 8 0)
      = Some (- 1, scarce_after, replicate 8 0)"
    by (simp add: eval_defs scarce_def scarce_after_def eval_nat_numeral)
  have w: "vm_write small_config scarce 0 0 8 (replicate 8 0) = Some (- 1, scarce_after)"
    by (simp add: eval_defs scarce_def scarce_after_def eval_nat_numeral)
  have p: "page_present scarce_after 0 0"
    by (simp add: page_present_def get_pte_def scarce_after_def)
  note T1 = lazy_mapping_first_fit_no_rollback
    [where k = scarce and pid = 0 and i = 0 and c = small_config and f = 2,
      THEN conjunct1, rule_format, OF conjI [OF a1 conjI [OF a2 a3]]]
  note T2 = lazy_mapping_first_fit_no_rollback
    [where k = scarce_after and pid = 0 and i = 1 and c = small_config and endp = 1
      and sz = 8 and start = 0 and so = 0 and eo = 0 and cur = 4 and buf = "replicate 8 0",
      THEN conjunct2, THEN conjunct1, rule_format]
  have l: "vm_read_loop small_config 0 8 0 0 1 0 1 4 scarce_after (replicate 8 0)
      = Some (- 1, scarce_after, replicate 8 0) \<and>
    vm_write_loop small_config 0 8 0 0 1 0 1 4 scarce_after (replicate 8 0)
      = Some (- 1, scarce_after)"
    using T2 b1 b2 b3 by simp
  have m: "occupied_pages scarce_after = (occupied_pages scarce)[nat 2 := True] \<and>
    get_pte scarce_after 0 0 = Some \<lparr>PFN = 2, present = True\<rparr>"
    using T1 w1 by simp
  show ?thesis using a1 a2 w1 m b1 b2 l r w p by simp
qed

section \<open>A free frame exists for every unmapped page\<close>

lemma maps_to_of_present:
  assumes "shape_ok c k" and "slots_ok c k"
    and "get_pte k pid i = Some e" and "present e"
  shows "maps_to k (nat pid) (nat i) (PFN e)"
proof -
  obtain pt where pt: "nat pid < length (mm k)" "page_table (mm k ! nat pid) = Some pt"
    "nat i < length (ptes pt)" "e = ptes pt ! nat i"
    using get_pteD [OF assms(3)] by blast
  have "running k ! nat pid" using running_of_table [OF assms(2) pt(1,2)] .
  moreover have "nat pid < length (running k)" using assms(1) pt(1) by (simp add: shape_ok_def)
  ultimately show ?thesis using pt assms(4) by (simp add: maps_to_def)
qed

lemma card_table_entries:
  "card {(p, j). p < length ms \<and> j < table_len (ms ! p)} = sum_list (map table_len ms)"
proof -
  have "{(p, j). p < length ms \<and> j < table_len (ms ! p)}
      = (SIGMA p:{0..<length ms}. {0..<table_len (ms ! p)})"
    by auto
  then have "card {(p, j). p < length ms \<and> j < table_len (ms ! p)}
      = (\<Sum>p = 0..<length ms. table_len (ms ! p))"
    by simp
  also have "\<dots> = sum_list (map table_len ms)"
    by (simp add: sum_list_sum_nth)
  finally show ?thesis .
qed

lemma free_frame_exists:
  assumes inv: "kernel_inv c k" and e: "get_pte k pid i = Some e" "\<not> present e"
  shows "\<exists>f. lowest_free c k f"
proof -
  have sh: "shape_ok c k" and sl: "slots_ok c k" and fr: "frames_ok c k" and pg: "pages_ok c k"
    using inv by (simp_all add: kernel_inv_def)
  define F where "F = nat (KERNEL_SPACE_SIZE c sdiv PAGE_SIZE c)"
  define T where "T = {(p, j). p < length (mm k) \<and> j < table_len (mm k ! p)}"
  define M where "M = {(p, j). \<exists>f. maps_to k p j f}"
  define h where "h = (\<lambda>(p, j). nat (PFN (ptes (the (page_table (mm k ! p))) ! j)))"
  define Occ where "Occ = {g. g < F \<and> occupied_pages k ! g}"
  obtain pt where pt: "nat pid < length (mm k)" "page_table (mm k ! nat pid) = Some pt"
    "nat i < length (ptes pt)" "e = ptes pt ! nat i"
    using get_pteD [OF e(1)] by blast
  have finT: "finite T"
  proof -
    have "T = (SIGMA p:{0..<length (mm k)}. {0..<table_len (mm k ! p)})"
      by (auto simp: T_def)
    then show ?thesis by simp
  qed
  have x: "(nat pid, nat i) \<in> T" "(nat pid, nat i) \<notin> M"
    using pt e(2) by (auto simp: T_def M_def table_len_def maps_to_def)
  have MT: "M \<subseteq> T - {(nat pid, nat i)}"
    using x(2) by (auto simp: M_def T_def maps_to_def table_len_def split: option.splits)
  have cardT: "int (card T) = allocated_pages k"
    unfolding T_def card_table_entries using pg by (simp add: pages_ok_def)
  have "card M \<le> card (T - {(nat pid, nat i)})"
    using MT finT by (intro card_mono) auto
  also have "\<dots> < card T"
    using x(1) finT by (intro psubset_card_mono) auto
  finally have cM: "card M < card T" .
  have finM: "finite M" using MT finT by (meson finite_Diff finite_subset)
  have OM: "Occ \<subseteq> h ` M"
  proof
    fix g assume "g \<in> Occ"
    then have g: "g < F" "occupied_pages k ! g" by (simp_all add: Occ_def)
    then have "0 \<le> int g \<and> int g < KERNEL_SPACE_SIZE c sdiv PAGE_SIZE c \<and>
        occupied_pages k ! nat (int g)"
      by (simp add: F_def)
    then obtain p j where m: "maps_to k p j (int g)"
      using fr unfolding frames_ok_def by blast
    then have "h (p, j) = g"
      by (auto simp: h_def maps_to_def split: option.splits)
    moreover have "(p, j) \<in> M" using m by (auto simp: M_def)
    ultimately show "g \<in> h ` M" by blast
  qed
  have "card Occ \<le> card (h ` M)" using OM finM by (intro card_mono) auto
  also have "\<dots> \<le> card M" using finM by (rule card_image_le)
  finally have "int (card Occ) < allocated_pages k" using cM cardT by linarith
  also have "\<dots> \<le> KERNEL_SPACE_SIZE c sdiv PAGE_SIZE c" using pg by (simp add: pages_ok_def)
  finally have "card Occ < F" by (simp add: F_def)
  then have "Occ \<noteq> {0..<F}" by auto
  moreover have "Occ \<subseteq> {0..<F}" by (auto simp: Occ_def)
  ultimately have "\<exists>g. g < F \<and> \<not> occupied_pages k ! g"
    unfolding Occ_def by (metis (mono_tags, lifting) atLeastLessThan_iff mem_Collect_eq subsetI
        subset_antisym zero_le)
  then obtain g where g: "g < F" "\<not> occupied_pages k ! g" by blast
  define g0 where "g0 = (LEAST g. g < F \<and> \<not> occupied_pages k ! g)"
  have g0: "g0 < F \<and> \<not> occupied_pages k ! g0"
    unfolding g0_def using g by (intro LeastI [of "\<lambda>g. g < F \<and> \<not> occupied_pages k ! g" g]) simp
  have least: "\<And>g'. g' < g0 \<Longrightarrow> occupied_pages k ! g'"
  proof -
    fix g' assume l: "g' < g0"
    then have "\<not> (g' < F \<and> \<not> occupied_pages k ! g')"
      unfolding g0_def by (rule not_less_Least)
    then show "occupied_pages k ! g'" using l g0 by simp
  qed
  have "lowest_free c k (int g0)"
    unfolding lowest_free_def
  proof (intro conjI ballI)
    show "0 \<le> int g0" by simp
    show "int g0 < KERNEL_SPACE_SIZE c sdiv PAGE_SIZE c" using g0 unfolding F_def by linarith
    show "\<not> occupied_pages k ! nat (int g0)" using g0 by simp
    fix g' assume "g' \<in> {0..<int g0}"
    then have "nat g' < g0" by auto
    then show "occupied_pages k ! nat g'" by (rule least)
  qed
  then show ?thesis by blast
qed

lemma map_page_succeeds:
  assumes inv: "kernel_inv c k" and e: "get_pte k pid i = Some e"
  shows "\<exists>k'. map_page c k pid i = Some (True, k') \<and> (present e \<longrightarrow> k' = k)"
proof (cases "present e")
  case True
  then show ?thesis using e by (simp add: map_page_def)
next
  case False
  obtain f where f: "lowest_free c k f" using free_frame_exists [OF inv e False] by blast
  have "KERNEL_SPACE_SIZE c sdiv PAGE_SIZE c \<le> int (length (occupied_pages k))"
    using inv by (simp add: kernel_inv_def shape_ok_def)
  moreover have "page_unmapped k pid i" using e False by (simp add: page_unmapped_iff)
  ultimately show ?thesis using map_page_unmapped_free f False by blast
qed

section \<open>The copies of a read stay in range\<close>

lemma page_geometry:
  fixes p addr len :: int
  assumes p: "0 < p" and a: "0 \<le> addr" "0 < len"
  defines "S \<equiv> addr div p" and "E \<equiv> (addr + len - 1) div p"
  shows "S * p + addr mod p = addr" and "0 \<le> addr mod p" and "addr mod p < p"
    and "E * p \<le> addr + len - 1" and "addr + len - 1 < E * p + p"
    and "0 \<le> (addr + len) mod p" and "(addr + len) mod p < p"
    and "E * p + (addr + len) mod p \<le> addr + len"
    and "S \<le> E" and "0 \<le> S"
proof -
  show "S * p + addr mod p = addr" by (simp add: S_def)
  show "0 \<le> addr mod p" "addr mod p < p" using p by simp_all
  have "E * p + (addr + len - 1) mod p = addr + len - 1" by (simp add: E_def)
  moreover have "0 \<le> (addr + len - 1) mod p" "(addr + len - 1) mod p < p" using p by simp_all
  ultimately show "E * p \<le> addr + len - 1" "addr + len - 1 < E * p + p" by linarith+
  show "0 \<le> (addr + len) mod p" "(addr + len) mod p < p" using p by simp_all
  have "E \<le> (addr + len) div p" unfolding E_def using p by (intro zdiv_mono1) simp_all
  then have "E * p \<le> (addr + len) div p * p" using p by (intro mult_right_mono) simp_all
  moreover have "(addr + len) div p * p + (addr + len) mod p = addr + len" by simp
  ultimately show "E * p + (addr + len) mod p \<le> addr + len" by linarith
  show "S \<le> E" unfolding S_def E_def using p a by (intro zdiv_mono1) simp_all
  show "0 \<le> S" unfolding S_def using p a by (simp add: pos_imp_zdiv_nonneg_iff)
qed

lemma read_page_defined:
  fixes addr len :: int and c :: Config
  defines "p \<equiv> PAGE_SIZE c"
  defines "S \<equiv> addr div PAGE_SIZE c" and "E \<equiv> (addr + len - 1) div PAGE_SIZE c"
  assumes P: "0 < PAGE_SIZE c" and a: "0 \<le> addr" "0 < len"
    and buf: "len \<le> int (length buf)"
    and pfn: "0 \<le> pfn" "PAGE_SIZE c * pfn + PAGE_SIZE c \<le> int (length sp)"
    and i: "S \<le> i" "i \<le> E"
    and cur: "cur = (if S = E \<or> i = S then 0 else i * PAGE_SIZE c - addr)"
  shows "\<exists>buf' cur'.
      read_page c sp len S (addr mod PAGE_SIZE c) E ((addr + len) mod PAGE_SIZE c) i cur pfn buf
        = Some (buf', cur') \<and>
      length buf' = length buf \<and>
      (i + 1 \<le> E \<longrightarrow> cur' = (i + 1) * PAGE_SIZE c - addr)"
proof -
  note g = page_geometry [OF P a, folded S_def E_def p_def]
  have pp: "0 < p" using P by (simp add: p_def)
  have pf: "0 \<le> p * pfn" using pp pfn(1) by simp
  have sp: "p * pfn + p \<le> int (length sp)" using pfn(2) by (simp add: p_def)
  show ?thesis
  proof (cases "S = E")
    case True
    have "addr mod p + len \<le> p" using g(1,5) unfolding True by linarith
    then show ?thesis
      using True i pf sp g(2) a buf
      by (simp add: read_page_def memcpy_def p_def [symmetric])
  next
    case SE: False
    show ?thesis
    proof (cases "i = S")
      case True
      have "S + 1 \<le> E" using SE g(9) by simp
      then have "(S + 1) * p \<le> E * p" using pp by (intro mult_right_mono) simp_all
      then have "p - addr mod p \<le> len" using g(1,4) by (simp add: algebra_simps)
      moreover have "(S + 1) * p - addr = p - addr mod p" using g(1) by (simp add: algebra_simps)
      ultimately show ?thesis
        using True SE pf sp g(2,3) a buf cur
        by (simp add: read_page_def memcpy_def p_def [symmetric])
    next
      case iS: False
      then have "S + 1 \<le> i" using i(1) by simp
      then have "(S + 1) * p \<le> i * p" using pp by (intro mult_right_mono) simp_all
      then have c0: "0 \<le> i * p - addr" using g(1,3) by (simp add: algebra_simps)
      have c: "cur = i * p - addr" using cur SE iS by (simp add: p_def)
      show ?thesis
      proof (cases "i = E")
        case True
        then have "cur + (addr + len) mod p \<le> len" using c g(8) by simp
        then show ?thesis
          using True SE iS pf sp g(6,7) c c0 buf
          by (simp add: read_page_def memcpy_def p_def [symmetric])
      next
        case False
        then have "i + 1 \<le> E" using i(2) by simp
        then have "(i + 1) * p \<le> E * p" using pp by (intro mult_right_mono) simp_all
        then have "cur + p \<le> len" using c g(4) by (simp add: algebra_simps)
        moreover have "cur + p = (i + 1) * p - addr" using c by (simp add: algebra_simps)
        ultimately show ?thesis
          using False SE iS pf sp pp c c0 buf
          by (simp add: read_page_def memcpy_def p_def [symmetric])
      qed
    qed
  qed
qed

lemma map_page_keeps_defined:
  assumes "map_page c k pid j = Some (ok, k')" and "get_pte k pid i \<noteq> None"
  shows "get_pte k' pid i \<noteq> None"
  using assms(1)
proof (cases rule: map_page_cases)
  case (mapped e0 f)
  then show ?thesis
    using get_pte_set_pte [of "k\<lparr>occupied_pages := (occupied_pages k)[nat f := True]\<rparr>" pid j e0]
      assms(2) by simp
qed (use assms in simp_all)

lemma map_page_keeps_sizes:
  assumes "map_page c k pid j = Some (ok, k')"
  shows "length (mm k') = length (mm k) \<and> size_mm (mm k' ! p) = size_mm (mm k ! p)"
  using assms
proof (cases rule: map_page_cases)
  case (mapped e0 f)
  have "nat pid < length (mm k)" using get_pteD [OF mapped(1)] by simp
  then show ?thesis
    using mapped(9) by (cases "p = nat pid") (simp_all add: set_pte_def)
qed simp_all

lemma frame_in_space:
  assumes "config_ok c" and "0 \<le> f" and "f < KERNEL_SPACE_SIZE c sdiv PAGE_SIZE c"
  shows "PAGE_SIZE c * f + PAGE_SIZE c \<le> KERNEL_SPACE_SIZE c"
proof -
  have P: "0 < PAGE_SIZE c" and K: "0 \<le> KERNEL_SPACE_SIZE c"
    using assms(1) by (simp_all add: config_ok_def)
  have "f + 1 \<le> KERNEL_SPACE_SIZE c div PAGE_SIZE c"
    using assms(3) P K by (simp add: sdiv_nonneg)
  then have "PAGE_SIZE c * (f + 1) \<le> PAGE_SIZE c * (KERNEL_SPACE_SIZE c div PAGE_SIZE c)"
    using P by (intro mult_left_mono) simp_all
  also have "\<dots> \<le> KERNEL_SPACE_SIZE c"
  proof -
    have "PAGE_SIZE c * (KERNEL_SPACE_SIZE c div PAGE_SIZE c)
        + KERNEL_SPACE_SIZE c mod PAGE_SIZE c = KERNEL_SPACE_SIZE c" by simp
    moreover have "0 \<le> KERNEL_SPACE_SIZE c mod PAGE_SIZE c" using P by simp
    ultimately show ?thesis by linarith
  qed
  finally show ?thesis by (simp add: algebra_simps)
qed

lemma vm_read_loop_success:
  assumes "config_ok c" and "0 \<le> addr" and "0 < sz" and "sz \<le> int (length buf)"
    and "start = addr div PAGE_SIZE c" and "so = addr mod PAGE_SIZE c"
    and "endp = (addr + sz - 1) div PAGE_SIZE c" and "eo = (addr + sz) mod PAGE_SIZE c"
    and "kernel_inv c k"
    and "\<forall>j \<in> {i..endp}. get_pte k pid j \<noteq> None"
    and "start \<le> i"
    and "i \<le> endp \<longrightarrow> cur = (if start = endp \<or> i = start then 0 else i * PAGE_SIZE c - addr)"
  shows "\<exists>k' buf'. vm_read_loop c pid sz start so endp eo i cur k buf = Some (0, k', buf') \<and>
           kernel_inv c k' \<and> (\<forall>j \<in> {i..endp}. page_present k' pid j) \<and>
           ((\<forall>j \<in> {i..endp}. page_present k pid j) \<longrightarrow> k' = k)"
  using assms
proof (induction c pid sz start so endp eo i cur k buf rule: vm_read_loop.induct)
  case (1 c pid sz start so endp eo i cur k buf)
  note cfg = "1.prems"(1) and a = "1.prems"(2,3) and buf = "1.prems"(4)
    and geo = "1.prems"(5-8) and inv = "1.prems"(9) and ent = "1.prems"(10)
    and i = "1.prems"(11) and cur = "1.prems"(12)
  have P: "0 < PAGE_SIZE c" using cfg by (simp add: config_ok_def)
  show ?case
  proof (cases "i \<le> endp")
    case False
    then show ?thesis using inv by (subst vm_read_loop.simps) simp
  next
    case True
    have "i \<in> {i..endp}" using True by simp
    then have "get_pte k pid i \<noteq> None" using ent by blast
    then obtain e where e: "get_pte k pid i = Some e" by blast
    obtain k1 where mp: "map_page c k pid i = Some (True, k1)" and same: "present e \<longrightarrow> k1 = k"
      using map_page_succeeds [OF inv e] by blast
    have inv1: "kernel_inv c k1" using kernel_inv_map_page [OF inv mp] .
    obtain e1 where e1: "get_pte k1 pid i = Some e1" "present e1"
      using map_page_mapped [OF mp] by blast
    have "shape_ok c k1" "slots_ok c k1" using inv1 by (simp_all add: kernel_inv_def)
    then have "maps_to k1 (nat pid) (nat i) (PFN e1)"
      using e1 by (rule maps_to_of_present)
    then have f: "0 \<le> PFN e1" "PFN e1 < KERNEL_SPACE_SIZE c sdiv PAGE_SIZE c"
      using inv1 unfolding kernel_inv_def frames_ok_def by blast+
    have "length (space k1) = nat (KERNEL_SPACE_SIZE c)"
      using inv1 by (simp add: kernel_inv_def shape_ok_def)
    then have sp: "PAGE_SIZE c * PFN e1 + PAGE_SIZE c \<le> int (length (space k1))"
      using frame_in_space [OF cfg f] by simp
    obtain b1 c1 where rp: "read_page c (space k1) sz start so endp eo i cur (PFN e1) buf
          = Some (b1, c1)"
      and lb: "length b1 = length buf"
      and c1: "i + 1 \<le> endp \<longrightarrow> c1 = (i + 1) * PAGE_SIZE c - addr"
      using read_page_defined [OF P a buf f(1) sp, of i cur] i True cur
      unfolding geo by blast
    have nn: "\<not> \<not> True" by simp
    have ent1: "\<forall>j \<in> {i + 1..endp}. get_pte k1 pid j \<noteq> None"
      using ent map_page_keeps_defined [OF mp] by auto
    have cur1: "i + 1 \<le> endp \<longrightarrow>
        c1 = (if start = endp \<or> i + 1 = start then 0 else (i + 1) * PAGE_SIZE c - addr)"
      using c1 i by auto
    obtain k' buf' where rec: "vm_read_loop c pid sz start so endp eo (i + 1) c1 k1 b1
          = Some (0, k', buf')"
      and inv': "kernel_inv c k'" and pres: "\<forall>j \<in> {i + 1..endp}. page_present k' pid j"
      and same': "(\<forall>j \<in> {i + 1..endp}. page_present k1 pid j) \<longrightarrow> k' = k1"
      using "1.IH" [OF True mp refl nn e1(1) rp refl cfg a _ geo inv1 ent1 _ cur1] buf lb i
      by auto
    have loop: "vm_read_loop c pid sz start so endp eo i cur k buf = Some (0, k', buf')"
      using True mp e1(1) rp rec by (subst vm_read_loop.simps) simp
    have p1: "page_present k1 pid i" using e1 by (simp add: page_present_iff)
    have pi: "page_present k' pid i"
    proof (rule vm_read_loop_preserves [where P = "\<lambda>k. page_present k pid i", OF rec])
      show "page_present k1 pid i" by (fact p1)
      show "\<And>k j ok k'. page_present k pid i \<Longrightarrow> map_page c k pid j = Some (ok, k')
        \<Longrightarrow> page_present k' pid i"
        by (rule map_page_keeps_page_present)
    qed
    have all: "\<forall>j \<in> {i..endp}. page_present k' pid j"
    proof (intro ballI)
      fix j assume "j \<in> {i..endp}"
      then have "j = i \<or> j \<in> {i + 1..endp}" by auto
      then show "page_present k' pid j" using pi pres by blast
    qed
    have unchanged: "(\<forall>j \<in> {i..endp}. page_present k pid j) \<longrightarrow> k' = k"
    proof
      assume allp: "\<forall>j \<in> {i..endp}. page_present k pid j"
      then have "page_present k pid i" using True by simp
      then have "present e" using e by (simp add: page_present_iff)
      then have "k1 = k" using same by simp
      moreover have "\<forall>j \<in> {i + 1..endp}. page_present k1 pid j"
        using allp \<open>k1 = k\<close> by auto
      ultimately show "k' = k" using same' by simp
    qed
    show ?thesis using loop inv' all unchanged by blast
  qed
qed

section \<open>Reading twice\<close>

lemma map_page_keeps_running:
  assumes "map_page c k pid j = Some (ok, k')"
  shows "running k' = running k"
  using assms by (cases rule: map_page_cases) (simp_all add: set_pte_def)

lemma vm_read_keeps_slots:
  assumes "vm_read c k pid addr sz buf = Some (r, k', buf')"
  shows "running k' = running k \<and> length (mm k') = length (mm k) \<and>
         size_mm (mm k' ! p) = size_mm (mm k ! p)"
proof (cases "vm_read c k pid addr sz buf = Some (- 1, k, buf)")
  case True
  then show ?thesis using assms by simp
next
  case False
  then have loop: "vm_read_loop c pid sz (addr sdiv PAGE_SIZE c) (addr smod PAGE_SIZE c)
      ((addr + sz - 1) sdiv PAGE_SIZE c) ((addr + sz) smod PAGE_SIZE c)
      (addr sdiv PAGE_SIZE c) 0 k buf = Some (r, k', buf')"
    using assms by (simp add: vm_read_def Let_def split: if_splits)
  show ?thesis
  proof (rule vm_read_loop_preserves [where P = "\<lambda>k'. running k' = running k \<and>
      length (mm k') = length (mm k) \<and> size_mm (mm k' ! p) = size_mm (mm k ! p)", OF loop])
    show "running k = running k \<and> length (mm k) = length (mm k) \<and>
      size_mm (mm k ! p) = size_mm (mm k ! p)" by simp
    fix k0 j ok k1
    assume "running k0 = running k \<and> length (mm k0) = length (mm k) \<and>
        size_mm (mm k0 ! p) = size_mm (mm k ! p)"
      and "map_page c k0 pid j = Some (ok, k1)"
    then show "running k1 = running k \<and> length (mm k1) = length (mm k) \<and>
        size_mm (mm k1 ! p) = size_mm (mm k ! p)"
      using map_page_keeps_running [of c k0 pid j ok k1]
        map_page_keeps_sizes [of c k0 pid j ok k1 p] by simp
  qed
qed

lemma vm_read_success:
  assumes cfg: "config_ok c" and inv: "kernel_inv c k"
    and pid: "0 \<le> pid" "pid < MAX_PROCESS_NUM c" and run: "running k ! nat pid"
    and rng: "0 < len" "0 \<le> addr" "addr + len \<le> size_mm (mm k ! nat pid)"
    and buf: "len \<le> int (length buf)"
  shows "\<exists>k1 out. vm_read c k pid addr len buf = Some (0, k1, out) \<and> kernel_inv c k1 \<and>
           (\<forall>j \<in> {addr sdiv PAGE_SIZE c..(addr + len - 1) sdiv PAGE_SIZE c}.
              page_present k1 pid j) \<and>
           ((\<forall>j \<in> {addr sdiv PAGE_SIZE c..(addr + len - 1) sdiv PAGE_SIZE c}.
              page_present k pid j) \<longrightarrow> k1 = k)"
proof -
  have sh: "shape_ok c k" and sl: "slots_ok c k"
    using inv by (simp_all add: kernel_inv_def)
  have P: "0 < PAGE_SIZE c" using cfg by (simp add: config_ok_def)
  have p0: "nat pid < length (mm k)" "\<not> (pid < 0 \<or> int (length (mm k)) \<le> pid)"
    using sh pid by (simp_all add: shape_ok_def)
  define S where "S = addr div PAGE_SIZE c"
  define E where "E = (addr + len - 1) div PAGE_SIZE c"
  have sd: "addr sdiv PAGE_SIZE c = S" "(addr + len - 1) sdiv PAGE_SIZE c = E"
    "addr smod PAGE_SIZE c = addr mod PAGE_SIZE c"
    "(addr + len) smod PAGE_SIZE c = (addr + len) mod PAGE_SIZE c"
    using P rng by (simp_all add: sdiv_nonneg smod_nonneg S_def E_def)
  note g = page_geometry [OF P rng(2,1), folded S_def E_def]
  obtain pt where pt: "page_table (mm k ! nat pid) = Some pt"
    using slots_ok_running(3) [OF sl p0(1) run] by blast
  have "int (length (ptes pt)) = (size_mm (mm k ! nat pid) - 1) sdiv PAGE_SIZE c + 1"
    using slots_ok_running(4) [OF sl p0(1) run] pt by (simp add: table_len_def)
  also have "\<dots> = (size_mm (mm k ! nat pid) - 1) div PAGE_SIZE c + 1"
    using slots_ok_running(1) [OF sl p0(1) run] P by (simp add: sdiv_nonneg)
  finally have len: "int (length (ptes pt)) = (size_mm (mm k ! nat pid) - 1) div PAGE_SIZE c + 1" .
  have "E \<le> (size_mm (mm k ! nat pid) - 1) div PAGE_SIZE c"
    unfolding E_def using rng(3) P by (intro zdiv_mono1) simp_all
  then have E: "E < int (length (ptes pt))" using len by simp
  have ent: "\<forall>j \<in> {S..E}. get_pte k pid j \<noteq> None"
  proof
    fix j assume "j \<in> {S..E}"
    then have "0 \<le> j" "j < int (length (ptes pt))" using g(10) E by simp_all
    then show "get_pte k pid j \<noteq> None" using p0 pt by (simp add: get_pte_def)
  qed
  have loop: "\<exists>k' buf'. vm_read_loop c pid len S (addr mod PAGE_SIZE c) E
      ((addr + len) mod PAGE_SIZE c) S 0 k buf = Some (0, k', buf') \<and>
      kernel_inv c k' \<and> (\<forall>j \<in> {S..E}. page_present k' pid j) \<and>
      ((\<forall>j \<in> {S..E}. page_present k pid j) \<longrightarrow> k' = k)"
    by (rule vm_read_loop_success [OF cfg rng(2,1) buf S_def refl E_def refl inv ent]) simp_all
  have "vm_read c k pid addr len buf = vm_read_loop c pid len S (addr mod PAGE_SIZE c) E
      ((addr + len) mod PAGE_SIZE c) S 0 k buf"
    using rng p0(2) P by (simp add: vm_read_def Let_def sd)
  then show ?thesis using loop unfolding sd by simp
qed

text \<open>
  Claim C7. In every reachable state, for a running process and a valid range (and
  caller buffers that hold \<open>len\<close> bytes), a first \<^verbatim>\<open>vm_read\<close> succeeds and leaves every
  page of the range present, and a second \<^verbatim>\<open>vm_read\<close> of the same range succeeds and
  returns the kernel state of the first: no page-table entry and no frame flag
  changes, so each page of the range is mapped once.
\<close>

theorem vm_read_twice_maps_once:
  assumes cfg: "config_ok c" and reach: "run c (init_kernel c) calls = Some k"
    and pid: "0 \<le> pid" "pid < MAX_PROCESS_NUM c" and run: "running k ! nat pid"
    and rng: "0 < len" "0 \<le> addr" "addr + len \<le> size_mm (mm k ! nat pid)"
    and buf: "len \<le> int (length buf)" "len \<le> int (length buf2)"
  shows "\<exists>k1 out1 out2.
           vm_read c k pid addr len buf = Some (0, k1, out1) \<and>
           (\<forall>j \<in> {addr sdiv PAGE_SIZE c..(addr + len - 1) sdiv PAGE_SIZE c}.
              page_present k1 pid j) \<and>
           vm_read c k1 pid addr len buf2 = Some (0, k1, out2)"
proof -
  have inv: "kernel_inv c k" using reachable_inv [OF cfg reach] .
  obtain k1 out1 where r1: "vm_read c k pid addr len buf = Some (0, k1, out1)"
    and inv1: "kernel_inv c k1"
    and pres: "\<forall>j \<in> {addr sdiv PAGE_SIZE c..(addr + len - 1) sdiv PAGE_SIZE c}.
              page_present k1 pid j"
    using vm_read_success [OF cfg inv pid run rng buf(1)] by blast
  have keep: "running k1 = running k" "size_mm (mm k1 ! nat pid) = size_mm (mm k ! nat pid)"
    using vm_read_keeps_slots [OF r1, of "nat pid"] by simp_all
  have run1: "running k1 ! nat pid" using run keep(1) by simp
  have rng1: "addr + len \<le> size_mm (mm k1 ! nat pid)" using rng(3) keep(2) by simp
  obtain k2 out2 where r2: "vm_read c k1 pid addr len buf2 = Some (0, k2, out2)"
    and same: "(\<forall>j \<in> {addr sdiv PAGE_SIZE c..(addr + len - 1) sdiv PAGE_SIZE c}.
              page_present k1 pid j) \<longrightarrow> k2 = k1"
    using vm_read_success [OF cfg inv1 pid run1 rng(1,2) rng1 buf(2)] by blast
  have "k2 = k1" using same pres by blast
  then show ?thesis using r1 pres r2 by blast
qed

theorem vm_read_twice_maps_once_witness:
  "config_ok small_config \<and>
   run small_config (init_kernel small_config) [ProcCreateVM 8] = Some one_proc \<and>
   (0::int) \<le> 0 \<and> 0 < MAX_PROCESS_NUM small_config \<and> running one_proc ! nat 0 \<and>
   (0::int) < 6 \<and> (0::int) \<le> 1 \<and> 1 + 6 \<le> size_mm (mm one_proc ! nat 0) \<and>
   6 \<le> int (length (replicate 6 (0::byte))) \<and>
   \<not> page_present one_proc 0 0 \<and> \<not> page_present one_proc 0 1 \<and>
   vm_read small_config one_proc 0 1 6 (replicate 6 0)
     = Some (0, one_proc\<lparr>occupied_pages := [True, True, False],
         mm := [\<lparr>size_mm = 8, page_table = Some \<lparr>ptes =
           [\<lparr>PFN = 0, present = True\<rparr>, \<lparr>PFN = 1, present = True\<rparr>]\<rparr>\<rparr>, free_slot]\<rparr>,
         replicate 6 0) \<and>
   (\<exists>k1 out1 out2.
      vm_read small_config one_proc 0 1 6 (replicate 6 0) = Some (0, k1, out1) \<and>
      page_present k1 0 0 \<and> page_present k1 0 1 \<and>
      vm_read small_config k1 0 1 6 (replicate 6 0) = Some (0, k1, out2))"
proof -
  have r: "run small_config (init_kernel small_config) [ProcCreateVM 8] = Some one_proc"
    by (simp add: eval_defs one_proc_def eval_nat_numeral)
  have p: "(0::int) \<le> 0" "0 < MAX_PROCESS_NUM small_config" "running one_proc ! nat 0"
    by (simp_all add: small_config_def one_proc_def)
  have g: "(0::int) < 6" "(0::int) \<le> 1" "1 + 6 \<le> size_mm (mm one_proc ! nat 0)"
    by (simp_all add: one_proc_def)
  have b: "6 \<le> int (length (replicate 6 (0::byte)))" by simp
  have u: "\<not> page_present one_proc 0 0" "\<not> page_present one_proc 0 1"
    by (simp_all add: page_present_def get_pte_def one_proc_def unmapped_def)
  have v: "vm_read small_config one_proc 0 1 6 (replicate 6 0)
     = Some (0, one_proc\<lparr>occupied_pages := [True, True, False],
         mm := [\<lparr>size_mm = 8, page_table = Some \<lparr>ptes =
           [\<lparr>PFN = 0, present = True\<rparr>, \<lparr>PFN = 1, present = True\<rparr>]\<rparr>\<rparr>, free_slot]\<rparr>,
         replicate 6 0)"
    by (simp add: eval_defs one_proc_def eval_nat_numeral)
  have S: "(1::int) sdiv PAGE_SIZE small_config = 0"
    "((1::int) + 6 - 1) sdiv PAGE_SIZE small_config = 1"
    by (simp_all add: small_config_def signed_divide_int_def)
  have two: "{0..1::int} = {0, 1}" by auto
  obtain k1 out1 out2 where
    "vm_read small_config one_proc 0 1 6 (replicate 6 0) = Some (0, k1, out1)"
    "\<forall>j \<in> {0..1}. page_present k1 0 j"
    "vm_read small_config k1 0 1 6 (replicate 6 0) = Some (0, k1, out2)"
    using vm_read_twice_maps_once [OF small_config_ok r p g b b] unfolding S by blast
  then have "\<exists>k1 out1 out2.
      vm_read small_config one_proc 0 1 6 (replicate 6 0) = Some (0, k1, out1) \<and>
      page_present k1 0 0 \<and> page_present k1 0 1 \<and>
      vm_read small_config k1 0 1 6 (replicate 6 0) = Some (0, k1, out2)"
    unfolding two by auto
  then show ?thesis using small_config_ok r p g b u v by simp
qed

section \<open>Return values and the causes of failure\<close>











end
